theory Spec2Isabelle
  imports Main "HOL-Library.FSet"
begin

section \<open>Data model of singleton.h\<close>

text \<open>
  A class \<open>Type\<close> that derives from \<open>Singleton<Type>\<close> is named by a number, and so is
  every non-null address. A pointer is \<open>None\<close> when it is \<open>nullptr\<close>.
\<close>

type_synonym tid = nat
type_synonym addr = nat

text \<open>\<open>struct PointerWrapper\<close>: the two fields of the source, in its order.\<close>

record PointerWrapper =
  initialized :: bool
  raw_pointer :: "addr option"

text \<open>
  \<open>struct InstanceSafetyHelper\<close>: the wrapper and the mutex. The mutex is \<open>True\<close> while
  it is locked. The model is one thread, so the only way to find it locked is to have
  locked it before.
\<close>

record InstanceSafetyHelper =
  wrapper :: PointerWrapper
  mutex :: bool

text \<open>
  What can be observed of a run: \<open>Constructed p\<close> is the line that \<open>createInstance\<close> and
  \<open>Instance\<close> print on stderr once the constructor has returned. \<open>Pushed\<close> and
  \<open>HookCalled\<close> are written by no statement of the source: they record that \<open>push\<close> was
  entered and that \<open>pop\<close> reached the call \<open>ptr->postConstruction()\<close>, so that the order
  of these calls can be stated.
\<close>

datatype event =
    Pushed "tid \<times> addr"
  | Constructed addr
  | HookCalled "tid \<times> addr"

text \<open>
  The process state. \<open>helpers T\<close> is the function-local static of
  \<open>InstanceSafetyHelper<T>::Helper()\<close>. The two static members of
  \<open>SingletonPostConstructionHelper\<close> keep their names; an element of the vector is a
  \<open>SingletonBase *\<close>, kept together with the class of the object it points to, which is
  what selects the override of \<open>postConstruction\<close>. \<open>next_free\<close> is the allocator: \<open>malloc\<close>
  hands out the addresses in turn. \<open>m_container p\<close> is the member of the \<open>Collector\<close> object
  at address \<open>p\<close>.
\<close>

record world =
  helpers :: "tid \<Rightarrow> InstanceSafetyHelper"
  s_classes_under_construction :: "(tid \<times> addr) list"
  s_construct_stack_size :: int
  next_free :: addr
  trace :: "event list"
  m_container :: "addr \<Rightarrow> addr fset"

text \<open>
  A failed \<open>assert\<close> aborts the process. Locking a \<open>std::mutex\<close> that the thread already
  holds never returns; incrementing an \<open>int\<close> that holds \<open>INT_MAX\<close>, calling a member
  through a null pointer and destroying an object that is not alive are undefined. Each
  is an outcome of its own. An abort keeps the state in which it happened.
  \<open>OutOfFuel\<close> stands for user code that nests deeper than the bound given to the
  interpreter of section \<open>User code\<close>.
\<close>

datatype error = AssertionFailed | Deadlock | SignedOverflow | NullDereference | DeadObject

datatype 'a outcome = Ok 'a world | Abort error world | OutOfFuel

definition seq :: "'a outcome \<Rightarrow> ('a \<Rightarrow> world \<Rightarrow> 'b outcome) \<Rightarrow> 'b outcome" where
  "seq m f = (case m of Ok x w \<Rightarrow> f x w | Abort e w \<Rightarrow> Abort e w | OutOfFuel \<Rightarrow> OutOfFuel)"

text \<open>
  What a class supplies: its constructor, its override of the virtual
  \<open>postConstruction\<close> and the body of its destructor, each applied to \<open>this\<close>. A body
  returns, aborts or goes on for ever; one that throws is not modelled.
\<close>

record class_sem =
  ctor :: "addr \<Rightarrow> world \<Rightarrow> unit outcome"
  postConstruction :: "addr \<Rightarrow> world \<Rightarrow> unit outcome"
  dtor :: "addr \<Rightarrow> world \<Rightarrow> unit outcome"

text \<open>\<open>SingletonBase::postConstruction() {}\<close>, the default.\<close>

definition SingletonBase_postConstruction :: "addr \<Rightarrow> world \<Rightarrow> unit outcome" where
  "SingletonBase_postConstruction this w = Ok () w"

section \<open>PointerWrapper and InstanceSafetyHelper\<close>

text \<open>\<open>operator->\<close> and \<open>operator Type *\<close>: both assert \<open>initialized\<close> and return the pointer.\<close>

definition arrow :: "PointerWrapper \<Rightarrow> world \<Rightarrow> (addr option) outcome" where
  "arrow pw w = (if initialized pw = True then Ok (raw_pointer pw) w else Abort AssertionFailed w)"

text \<open>The constructor \<open>InstanceSafetyHelper() : wrapper{false, nullptr}, mutex()\<close>.\<close>

definition InstanceSafetyHelper_ctor :: InstanceSafetyHelper where
  "InstanceSafetyHelper_ctor =
     \<lparr>wrapper = \<lparr>initialized = False, raw_pointer = None\<rparr>, mutex = False\<rparr>"

text \<open>The destructor \<open>~InstanceSafetyHelper\<close>, run on the static at process exit.\<close>

definition InstanceSafetyHelper_dtor :: "tid \<Rightarrow> world \<Rightarrow> unit outcome" where
  "InstanceSafetyHelper_dtor T w =
     (if initialized (wrapper (helpers w T)) = False \<and> raw_pointer (wrapper (helpers w T)) = None
      then Ok () w else Abort AssertionFailed w)"

text \<open>
  The assignments to \<open>helper->wrapper.raw_pointer\<close> and \<open>helper->wrapper.initialized\<close>,
  and \<open>helper->mutex.lock()\<close> and \<open>unlock()\<close>, for the helper of \<open>T\<close>.
\<close>

definition set_raw_pointer :: "tid \<Rightarrow> addr option \<Rightarrow> world \<Rightarrow> world" where
  "set_raw_pointer T p w =
     w\<lparr>helpers := (helpers w)(T := (helpers w T)\<lparr>wrapper := (wrapper (helpers w T))\<lparr>raw_pointer := p\<rparr>\<rparr>)\<rparr>"

definition set_initialized :: "tid \<Rightarrow> bool \<Rightarrow> world \<Rightarrow> world" where
  "set_initialized T b w =
     w\<lparr>helpers := (helpers w)(T := (helpers w T)\<lparr>wrapper := (wrapper (helpers w T))\<lparr>initialized := b\<rparr>\<rparr>)\<rparr>"

definition set_mutex :: "tid \<Rightarrow> bool \<Rightarrow> world \<Rightarrow> world" where
  "set_mutex T b w = w\<lparr>helpers := (helpers w)(T := (helpers w T)\<lparr>mutex := b\<rparr>)\<rparr>"

definition lock :: "tid \<Rightarrow> world \<Rightarrow> unit outcome" where
  "lock T w = (if mutex (helpers w T) then Abort Deadlock w else Ok () (set_mutex T True w))"

definition unlock :: "tid \<Rightarrow> world \<Rightarrow> world" where
  "unlock T w = set_mutex T False w"

text \<open>
  \<open>malloc(sizeof(Type))\<close>: the next address. The model has no exhausted memory, hands
  no address out twice and keeps no record of what \<open>delete\<close> releases.
\<close>

definition malloc :: "world \<Rightarrow> addr outcome" where
  "malloc w = Ok (next_free w) (w\<lparr>next_free := Suc (next_free w)\<rparr>)"

section \<open>SingletonPostConstructionHelper\<close>

definition INT_MAX :: int where
  "INT_MAX = 2147483647"

text \<open>
  \<open>push\<close>: \<open>s_construct_stack_size++\<close>, then \<open>push_back\<close>. The counter is an \<open>int\<close>,
  taken as 32 bits wide.
\<close>

definition push :: "tid \<times> addr \<Rightarrow> world \<Rightarrow> unit outcome" where
  "push pointer w =
     (if s_construct_stack_size w = INT_MAX then Abort SignedOverflow w
      else Ok () (w\<lparr>s_construct_stack_size := s_construct_stack_size w + 1,
                    s_classes_under_construction := s_classes_under_construction w @ [pointer],
                    trace := trace w @ [Pushed pointer]\<rparr>))"

text \<open>
  The loop \<open>for (auto ptr : s_classes_under_construction) ptr->postConstruction()\<close>. The
  range is fixed when the loop starts, so the loop runs over the elements the vector
  had then. A hook that constructs a singleton pushes onto the vector while the loop
  runs over it, which C++ leaves undefined; the model goes on with the elements the
  loop started with. Where an object was destroyed while it was queued the source
  calls through a dangling pointer; the model calls the hook of its class.
\<close>

fun call_hooks :: "(tid \<Rightarrow> class_sem) \<Rightarrow> (tid \<times> addr) list \<Rightarrow> world \<Rightarrow> unit outcome" where
  "call_hooks C [] w = Ok () w"
| "call_hooks C (ptr # ptrs) w =
     seq (postConstruction (C (fst ptr)) (snd ptr) (w\<lparr>trace := trace w @ [HookCalled ptr]\<rparr>))
         (\<lambda>_. call_hooks C ptrs)"

text \<open>\<open>pop\<close>: the assertion, the decrement, and at zero the loop and \<open>clear()\<close>.\<close>

definition pop :: "(tid \<Rightarrow> class_sem) \<Rightarrow> world \<Rightarrow> unit outcome" where
  "pop C w =
     (if \<not> s_construct_stack_size w > 0 then Abort AssertionFailed w
      else let w1 = w\<lparr>s_construct_stack_size := s_construct_stack_size w - 1\<rparr> in
        if s_construct_stack_size w1 = 0
        then seq (call_hooks C (s_classes_under_construction w1) w1)
                 (\<lambda>_ w2. Ok () (w2\<lparr>s_classes_under_construction := []\<rparr>))
        else Ok () w1)"

section \<open>Singleton\<close>

text \<open>
  The statements that \<open>Instance\<close> (lines 196 to 203) and \<open>createInstance\<close> (lines 225 to
  232) have in common, between taking the mutex and releasing it: allocate, store the
  pointer, push, construct in place, store the pointer again, print, set \<open>initialized\<close>,
  pop.
\<close>

definition construct :: "(tid \<Rightarrow> class_sem) \<Rightarrow> tid \<Rightarrow> world \<Rightarrow> unit outcome" where
  "construct C T w =
     seq (malloc w) (\<lambda>data w1.
     seq (push (T, data) (set_raw_pointer T (Some data) w1)) (\<lambda>_ w2.
     seq (ctor (C T) data w2) (\<lambda>_ w3.
     pop C (set_initialized T True
              ((set_raw_pointer T (Some data) w3)\<lparr>trace := trace w3 @ [Constructed data]\<rparr>)))))"

definition Instance :: "(tid \<Rightarrow> class_sem) \<Rightarrow> tid \<Rightarrow> world \<Rightarrow> PointerWrapper outcome" where
  "Instance C T w =
     (if raw_pointer (wrapper (helpers w T)) = None
      then seq (lock T w) (\<lambda>_ w1.
           seq (if raw_pointer (wrapper (helpers w1 T)) = None then construct C T w1 else Ok () w1)
               (\<lambda>_ w2. Ok (wrapper (helpers (unlock T w2) T)) (unlock T w2)))
      else Ok (wrapper (helpers w T)) w)"

definition createInstance :: "(tid \<Rightarrow> class_sem) \<Rightarrow> tid \<Rightarrow> world \<Rightarrow> PointerWrapper outcome" where
  "createInstance C T w =
     (if raw_pointer (wrapper (helpers w T)) \<noteq> None then Abort AssertionFailed w
      else seq (lock T w) (\<lambda>_ w1.
        if raw_pointer (wrapper (helpers w1 T)) \<noteq> None then Abort AssertionFailed w1
        else seq (construct C T w1)
               (\<lambda>_ w2. Ok (wrapper (helpers (unlock T w2) T)) (unlock T w2))))"

text \<open>\<open>~Singleton\<close>: the assertion, the lock, the assertion again, the reset, the unlock.\<close>

definition Singleton_dtor :: "tid \<Rightarrow> world \<Rightarrow> unit outcome" where
  "Singleton_dtor T w =
     (if \<not> initialized (wrapper (helpers w T)) then Abort AssertionFailed w
      else seq (lock T w) (\<lambda>_ w1.
        if \<not> initialized (wrapper (helpers w1 T)) then Abort AssertionFailed w1
        else Ok () (unlock T (set_raw_pointer T None (set_initialized T False w1)))))"

text \<open>
  \<open>destructInstance\<close>: the assertion, then \<open>delete\<close>, which runs the destructor body of
  \<open>Type\<close> and then the base destructor \<open>~Singleton\<close>.
\<close>

definition destructInstance :: "(tid \<Rightarrow> class_sem) \<Rightarrow> tid \<Rightarrow> world \<Rightarrow> unit outcome" where
  "destructInstance C T w =
     (case raw_pointer (wrapper (helpers w T)) of
        None \<Rightarrow> Abort AssertionFailed w
      | Some p \<Rightarrow>
          if \<not> initialized (wrapper (helpers w T)) then Abort AssertionFailed w
          else seq (dtor (C T) p w) (\<lambda>_. Singleton_dtor T))"

definition getInstance :: "tid \<Rightarrow> world \<Rightarrow> addr outcome" where
  "getInstance T w =
     (case raw_pointer (wrapper (helpers w T)) of
        None \<Rightarrow> Abort AssertionFailed w
      | Some p \<Rightarrow> if initialized (wrapper (helpers w T)) then Ok p w else Abort AssertionFailed w)"

definition getInstanceDuringBuilding :: "tid \<Rightarrow> world \<Rightarrow> addr outcome" where
  "getInstanceDuringBuilding T w =
     (case raw_pointer (wrapper (helpers w T)) of
        None \<Rightarrow> Abort AssertionFailed w
      | Some p \<Rightarrow> if \<not> initialized (wrapper (helpers w T)) then Ok p w else Abort AssertionFailed w)"

section \<open>User code\<close>

text \<open>
  The constructors, hooks and destructors of the classes that use the library are
  written by its users. Here they are sequences of calls of the public static member
  functions of \<open>Singleton\<close>; \<open>InstanceArrow T\<close> is \<open>T::Instance()\<close> followed by
  \<open>operator->\<close> on the wrapper it returns, as in \<open>T::Instance()->f()\<close>.
\<close>

datatype cmd =
    CreateInstance tid
  | InstanceCall tid
  | InstanceArrow tid
  | GetInstance tid
  | GetInstanceDuringBuilding tid
  | DestructInstance tid

record class_def =
  ctor_body :: "cmd list"
  hook_body :: "cmd list"
  dtor_body :: "cmd list"

definition step :: "(tid \<Rightarrow> class_sem) \<Rightarrow> cmd \<Rightarrow> world \<Rightarrow> unit outcome" where
  "step C c w =
     (case c of
        CreateInstance T \<Rightarrow> seq (createInstance C T w) (\<lambda>_. Ok ())
      | InstanceCall T \<Rightarrow> seq (Instance C T w) (\<lambda>_. Ok ())
      | InstanceArrow T \<Rightarrow> seq (Instance C T w) (\<lambda>pw w1. seq (arrow pw w1) (\<lambda>_. Ok ()))
      | GetInstance T \<Rightarrow> seq (getInstance T w) (\<lambda>_. Ok ())
      | GetInstanceDuringBuilding T \<Rightarrow> seq (getInstanceDuringBuilding T w) (\<lambda>_. Ok ())
      | DestructInstance T \<Rightarrow> destructInstance C T w)"

fun exec_list :: "(cmd \<Rightarrow> world \<Rightarrow> unit outcome) \<Rightarrow> cmd list \<Rightarrow> world \<Rightarrow> unit outcome" where
  "exec_list f [] w = Ok () w"
| "exec_list f (c # cs) w = seq (f c w) (\<lambda>_. exec_list f cs)"

text \<open>
  The classes of a program \<open>P\<close>, with user code allowed to nest \<open>n\<close> bodies deep: a
  body entered at depth \<open>Suc n\<close> runs its calls against the classes at depth \<open>n\<close>.
\<close>

primrec table :: "(tid \<Rightarrow> class_def) \<Rightarrow> nat \<Rightarrow> tid \<Rightarrow> class_sem" where
  "table P 0 = (\<lambda>T. \<lparr>ctor = (\<lambda>this w. OutOfFuel), postConstruction = (\<lambda>this w. OutOfFuel),
                      dtor = (\<lambda>this w. OutOfFuel)\<rparr>)"
| "table P (Suc n) = (\<lambda>T.
     \<lparr>ctor = (\<lambda>this. exec_list (step (table P n)) (ctor_body (P T))),
      postConstruction = (\<lambda>this. exec_list (step (table P n)) (hook_body (P T))),
      dtor = (\<lambda>this. exec_list (step (table P n)) (dtor_body (P T)))\<rparr>)"

text \<open>User code outside every body, such as \<open>main\<close>.\<close>

definition exec :: "(tid \<Rightarrow> class_def) \<Rightarrow> nat \<Rightarrow> cmd list \<Rightarrow> world \<Rightarrow> unit outcome" where
  "exec P n cs w = exec_list (step (table P n)) cs w"

text \<open>
  A state in which no helper holds an instance and no construction is in flight. The
  definitions of the two static members are in no file of the repository; objects of
  static storage duration start zeroed.
\<close>

definition world0 :: world where
  "world0 = \<lparr>helpers = (\<lambda>T. InstanceSafetyHelper_ctor),
             s_classes_under_construction = [],
             s_construct_stack_size = 0,
             next_free = 0,
             trace = [],
             m_container = (\<lambda>p. {||})\<rparr>"

section \<open>collectable.h\<close>

text \<open>
  \<open>Collector::insert\<close> and \<open>Collector::erase\<close> on the collector object at \<open>this\<close>. The
  insertion into the \<open>unordered_set\<close> happens before the assertion looks at its result.
\<close>

definition Collector_insert :: "addr \<Rightarrow> addr \<Rightarrow> world \<Rightarrow> bool outcome" where
  "Collector_insert this c w =
     (let success = (c |\<notin>| m_container w this);
          w1 = w\<lparr>m_container := (m_container w)(this := finsert c (m_container w this))\<rparr>
      in if success then Ok True w1 else Abort AssertionFailed w1)"

definition Collector_erase :: "addr \<Rightarrow> addr \<Rightarrow> world \<Rightarrow> bool outcome" where
  "Collector_erase this c w =
     (if c |\<in>| m_container w this
      then Ok True (w\<lparr>m_container := (m_container w)(this := m_container w this |-| {|c|})\<rparr>)
      else Abort AssertionFailed w)"

text \<open>
  \<open>Collector<Type>\<close> as a class that derives from \<open>Singleton\<close>: its implicit constructor
  makes the container empty, it does not override \<open>postConstruction\<close>, and its implicit
  destructor destroys the container.
\<close>

definition Collector_class :: class_sem where
  "Collector_class =
     \<lparr>ctor = (\<lambda>this w. Ok () (w\<lparr>m_container := (m_container w)(this := {||})\<rparr>)),
      postConstruction = SingletonBase_postConstruction,
      dtor = (\<lambda>this w. Ok () (w\<lparr>m_container := (m_container w)(this := {||})\<rparr>))\<rparr>"

text \<open>
  \<open>AutoCollectable<Type>\<close> has one field. \<open>K\<close> names the class \<open>Collector<Type>\<close>, and
  \<open>this\<close> is the address of the object, already cast to \<open>Type *\<close>.
\<close>

record AutoCollectable =
  m_registered_in_collector :: bool

definition AutoCollectable_ctor ::
  "(tid \<Rightarrow> class_sem) \<Rightarrow> tid \<Rightarrow> addr \<Rightarrow> world \<Rightarrow> AutoCollectable outcome" where
  "AutoCollectable_ctor C K this w =
     seq (Instance C K w) (\<lambda>pw w1.
     seq (arrow pw w1) (\<lambda>p w2.
       case p of
         None \<Rightarrow> Abort NullDereference w2
       | Some collector \<Rightarrow>
           seq (Collector_insert collector this w2) (\<lambda>r w3.
             if r then Ok \<lparr>m_registered_in_collector = r\<rparr> w3 else Abort AssertionFailed w3)))"

definition AutoCollectable_dtor ::
  "(tid \<Rightarrow> class_sem) \<Rightarrow> tid \<Rightarrow> addr \<Rightarrow> AutoCollectable \<Rightarrow> world \<Rightarrow> AutoCollectable outcome" where
  "AutoCollectable_dtor C K this obj w =
     (if m_registered_in_collector obj
      then seq (Instance C K w) (\<lambda>pw w1.
           seq (arrow pw w1) (\<lambda>p w2.
             case p of
               None \<Rightarrow> Abort NullDereference w2
             | Some collector \<Rightarrow>
                 seq (Collector_erase collector this w2) (\<lambda>r w3.
                   Ok (obj\<lparr>m_registered_in_collector := r\<rparr>) w3)))
      else Ok obj w)"

text \<open>
  The life of the collectable objects of one type: \<open>New a\<close> runs the constructor of a
  new object at address \<open>a\<close>, \<open>Delete a\<close> the destructor of the object there. The objects
  alive are kept with their field.
\<close>

datatype life = New addr | Delete addr

definition life_step ::
  "(tid \<Rightarrow> class_sem) \<Rightarrow> tid \<Rightarrow> life \<Rightarrow> (addr \<rightharpoonup> AutoCollectable) \<Rightarrow> world
     \<Rightarrow> (addr \<rightharpoonup> AutoCollectable) outcome" where
  "life_step C K ev objs w =
     (case ev of
        New a \<Rightarrow> seq (AutoCollectable_ctor C K a w) (\<lambda>obj. Ok (objs(a \<mapsto> obj)))
      | Delete a \<Rightarrow>
          (case objs a of
             None \<Rightarrow> Abort DeadObject w
           | Some obj \<Rightarrow> seq (AutoCollectable_dtor C K a obj w) (\<lambda>_. Ok (objs(a := None)))))"

fun run_life ::
  "(tid \<Rightarrow> class_sem) \<Rightarrow> tid \<Rightarrow> life list \<Rightarrow> (addr \<rightharpoonup> AutoCollectable) \<Rightarrow> world
     \<Rightarrow> (addr \<rightharpoonup> AutoCollectable) outcome" where
  "run_life C K [] objs w = Ok objs w"
| "run_life C K (ev # evs) objs w = seq (life_step C K ev objs w) (run_life C K evs)"

text \<open>
  The members of the registry of \<open>K\<close>: the container of the collector that the helper
  of \<open>K\<close> holds; while it holds none there are no members.
\<close>

definition members :: "tid \<Rightarrow> world \<Rightarrow> addr fset" where
  "members K w =
     (case raw_pointer (wrapper (helpers w K)) of None \<Rightarrow> {||} | Some p \<Rightarrow> m_container w p)"

text \<open>
  The addresses that a sequence leaves alive, and the sequences in which every
  \<open>New\<close> is at an address that holds no object and every \<open>Delete\<close> at one that does.
\<close>

fun alive_after :: "life list \<Rightarrow> addr set \<Rightarrow> addr set" where
  "alive_after [] A = A"
| "alive_after (New a # evs) A = alive_after evs (insert a A)"
| "alive_after (Delete a # evs) A = alive_after evs (A - {a})"

fun wf_life :: "life list \<Rightarrow> addr set \<Rightarrow> bool" where
  "wf_life [] A = True"
| "wf_life (New a # evs) A = (a \<notin> A \<and> wf_life evs (insert a A))"
| "wf_life (Delete a # evs) A = (a \<in> A \<and> wf_life evs (A - {a}))"

section \<open>Properties of states and of code\<close>

text \<open>The slot of \<open>T\<close> is occupied when its helper holds a pointer.\<close>

definition occupied :: "tid \<Rightarrow> world \<Rightarrow> bool" where
  "occupied T w = (raw_pointer (wrapper (helpers w T)) \<noteq> None)"

definition holder_inv :: "world \<Rightarrow> bool" where
  "holder_inv w = (\<forall>T. initialized (wrapper (helpers w T)) \<longrightarrow> occupied T w)"

text \<open>The coordinator: the depth is not negative, and the queue is empty at depth zero.\<close>

definition coord_inv :: "world \<Rightarrow> bool" where
  "coord_inv w =
     (0 \<le> s_construct_stack_size w \<and>
      (s_classes_under_construction w \<noteq> [] \<longrightarrow> 0 < s_construct_stack_size w))"

datatype coord_op = Push "tid \<times> addr" | Pop

definition coord_step :: "(tid \<Rightarrow> class_sem) \<Rightarrow> coord_op \<Rightarrow> world \<Rightarrow> unit outcome" where
  "coord_step C op w = (case op of Push p \<Rightarrow> push p w | Pop \<Rightarrow> pop C w)"

fun run_ops :: "(tid \<Rightarrow> class_sem) \<Rightarrow> coord_op list \<Rightarrow> world \<Rightarrow> unit outcome" where
  "run_ops C [] w = Ok () w"
| "run_ops C (op # ops) w = seq (coord_step C op w) (\<lambda>_. run_ops C ops)"

text \<open>
  A piece of code respects a relation between states when every run of it that returns
  relates the state before to the state after; a class table does when the three
  bodies of every class do.
\<close>

definition resp :: "(world \<Rightarrow> world \<Rightarrow> bool) \<Rightarrow> (world \<Rightarrow> 'a outcome) \<Rightarrow> bool" where
  "resp R f = (\<forall>w x w'. f w = Ok x w' \<longrightarrow> R w w')"

definition table_resp :: "(world \<Rightarrow> world \<Rightarrow> bool) \<Rightarrow> (tid \<Rightarrow> class_sem) \<Rightarrow> bool" where
  "table_resp R C =
     (\<forall>T this. resp R (ctor (C T) this) \<and> resp R (postConstruction (C T) this) \<and>
               resp R (dtor (C T) this))"

text \<open>The relations used below.\<close>

definition keeps_holder_inv :: "world \<Rightarrow> world \<Rightarrow> bool" where
  "keeps_holder_inv w w' = (holder_inv w \<longrightarrow> holder_inv w')"

definition frozen :: "tid \<Rightarrow> world \<Rightarrow> world \<Rightarrow> bool" where
  "frozen T w w' = (mutex (helpers w T) \<and> occupied T w \<longrightarrow> helpers w' T = helpers w T)"

definition same_depth :: "world \<Rightarrow> world \<Rightarrow> bool" where
  "same_depth w w' = (s_construct_stack_size w' = s_construct_stack_size w)"

text \<open>The calls that a trace records, in its order.\<close>

fun pushed_of :: "event list \<Rightarrow> (tid \<times> addr) list" where
  "pushed_of [] = []"
| "pushed_of (Pushed p # t) = p # pushed_of t"
| "pushed_of (e # t) = pushed_of t"

fun hooks_of :: "event list \<Rightarrow> (tid \<times> addr) list" where
  "hooks_of [] = []"
| "hooks_of (HookCalled p # t) = p # hooks_of t"
| "hooks_of (e # t) = hooks_of t"

fun constructed_of :: "event list \<Rightarrow> addr list" where
  "constructed_of [] = []"
| "constructed_of (Constructed a # t) = a # constructed_of t"
| "constructed_of (e # t) = constructed_of t"

text \<open>
  While a construction is in flight, code only appends to the queue and calls no hook:
  the queue grows by what the trace says was pushed.
\<close>

definition nested :: "world \<Rightarrow> world \<Rightarrow> bool" where
  "nested w w' =
     (0 < s_construct_stack_size w \<longrightarrow>
        s_construct_stack_size w' = s_construct_stack_size w \<and>
        (\<exists>t. trace w' = trace w @ t \<and> hooks_of t = [] \<and>
             s_classes_under_construction w' = s_classes_under_construction w @ pushed_of t))"

text \<open>
  An outcome \<open>b\<close> settles \<open>a\<close> when \<open>a\<close> ran out of fuel or is \<open>b\<close>; a class
  table settles another when the bodies of every class do, from every state.
\<close>

definition settles :: "'a outcome \<Rightarrow> 'a outcome \<Rightarrow> bool" where
  "settles a b = (a = OutOfFuel \<or> a = b)"

definition table_settles :: "(tid \<Rightarrow> class_sem) \<Rightarrow> (tid \<Rightarrow> class_sem) \<Rightarrow> bool" where
  "table_settles C D =
     (\<forall>T this w. settles (ctor (C T) this w) (ctor (D T) this w) \<and>
                 settles (postConstruction (C T) this w) (postConstruction (D T) this w) \<and>
                 settles (dtor (C T) this w) (dtor (D T) this w))"

text \<open>
  Draining a queue, said without the loop: the hook of \<open>q\<close>, called in \<open>w\<close>, returns
  in \<open>w'\<close>; and the hooks of the elements of \<open>Q\<close> are called one after another, in
  the order of \<open>Q\<close>, each in the state in which the one before returned, from \<open>w\<close> to
  \<open>w'\<close>.
\<close>

definition hook_run :: "(tid \<Rightarrow> class_sem) \<Rightarrow> tid \<times> addr \<Rightarrow> world \<Rightarrow> world \<Rightarrow> bool" where
  "hook_run C q w w' =
     (postConstruction (C (fst q)) (snd q) (w\<lparr>trace := trace w @ [HookCalled q]\<rparr>) = Ok () w')"

definition drained ::
  "(tid \<Rightarrow> class_sem) \<Rightarrow> (tid \<times> addr) list \<Rightarrow> world \<Rightarrow> world \<Rightarrow> bool" where
  "drained C Q w w' =
     (\<exists>ws. length ws = Suc (length Q) \<and> ws ! 0 = w \<and> ws ! length Q = w' \<and>
           (\<forall>i<length Q. hook_run C (Q ! i) (ws ! i) (ws ! Suc i)))"

text \<open>
  The calls that construct an instance of \<open>T\<close>, and the programs none of whose bodies
  makes one.
\<close>

fun creates :: "tid \<Rightarrow> cmd \<Rightarrow> bool" where
  "creates T (CreateInstance U) = (U = T)"
| "creates T (InstanceCall U) = (U = T)"
| "creates T (InstanceArrow U) = (U = T)"
| "creates T c = False"

definition never_creates :: "tid \<Rightarrow> (tid \<Rightarrow> class_def) \<Rightarrow> bool" where
  "never_creates T P =
     (\<forall>U. \<forall>c \<in> set (ctor_body (P U)) \<union> set (hook_body (P U)) \<union> set (dtor_body (P U)).
        \<not> creates T c)"

text \<open>Code that leaves an empty slot of \<open>T\<close> empty.\<close>

definition stays_empty :: "tid \<Rightarrow> world \<Rightarrow> world \<Rightarrow> bool" where
  "stays_empty T w w' = (\<not> occupied T w \<longrightarrow> \<not> occupied T w')"

text \<open>Code only appends to the trace.\<close>

definition trace_grows :: "world \<Rightarrow> world \<Rightarrow> bool" where
  "trace_grows w w' = (\<exists>s. trace w' = trace w @ s)"

text \<open>Code leaves the depth as it was, and the coordinator in order if it was.\<close>

definition keeps_coord_inv :: "world \<Rightarrow> world \<Rightarrow> bool" where
  "keeps_coord_inv w w' =
     (s_construct_stack_size w' = s_construct_stack_size w \<and> (coord_inv w \<longrightarrow> coord_inv w'))"

text \<open>
  The trace of a loop over the queue \<open>ps\<close> in which the hook of the \<open>i\<close>-th element
  left the events \<open>ss ! i\<close>.
\<close>

fun drain_trace :: "(tid \<times> addr) list \<Rightarrow> event list list \<Rightarrow> event list" where
  "drain_trace (p # ps) (s # ss) = HookCalled p # s @ drain_trace ps ss"
| "drain_trace ps ss = []"

text \<open>Hooks that only look singletons up, which is what the header's own example does.\<close>

fun looks_up :: "cmd \<Rightarrow> bool" where
  "looks_up (GetInstance T) = True"
| "looks_up (GetInstanceDuringBuilding T) = True"
| "looks_up c = False"

definition hooks_only_look_up :: "(tid \<Rightarrow> class_def) \<Rightarrow> bool" where
  "hooks_only_look_up P = (\<forall>T. list_all looks_up (hook_body (P T)))"

text \<open>The trace of a run that returned.\<close>

definition result_trace :: "'a outcome \<Rightarrow> event list option" where
  "result_trace r = (case r of Ok x w \<Rightarrow> Some (trace w) | Abort e w \<Rightarrow> None | OutOfFuel \<Rightarrow> None)"

text \<open>
  The order in which the constructors of a run completed, and the order in which its
  hooks were called, as addresses.
\<close>

definition completion_order :: "'a outcome \<Rightarrow> addr list option" where
  "completion_order r = map_option constructed_of (result_trace r)"

definition hook_order :: "'a outcome \<Rightarrow> addr list option" where
  "hook_order r = map_option (map snd \<circ> hooks_of) (result_trace r)"

text \<open>What a run returned, and a run followed by \<open>getInstance\<close>.\<close>

definition returned :: "'a outcome \<Rightarrow> 'a option" where
  "returned r = (case r of Ok x w \<Rightarrow> Some x | Abort e w \<Rightarrow> None | OutOfFuel \<Rightarrow> None)"

definition then_getInstance :: "tid \<Rightarrow> 'a outcome \<Rightarrow> addr outcome" where
  "then_getInstance T r = seq r (\<lambda>_. getInstance T)"

text \<open>
  The example of the header and of the specification: the constructor of \<open>A\<close> (class 0)
  creates \<open>B\<close> (class 1), the hook of \<open>B\<close> calls \<open>A::getInstance()\<close>, and here the hook of
  \<open>A\<close> calls \<open>B::getInstance()\<close> too. Every other class has empty bodies.
\<close>

definition prog_AB :: "tid \<Rightarrow> class_def" where
  "prog_AB T =
     (if T = 0 then \<lparr>ctor_body = [CreateInstance 1], hook_body = [GetInstance 1], dtor_body = []\<rparr>
      else if T = 1 then \<lparr>ctor_body = [], hook_body = [GetInstance 0], dtor_body = []\<rparr>
      else \<lparr>ctor_body = [], hook_body = [], dtor_body = []\<rparr>)"

section \<open>Properties of the registry\<close>

text \<open>
  What holds of the registry of \<open>K\<close> between the constructors and destructors of the
  collectable objects \<open>objs\<close>: the class is the collector, every object alive has
  its field set, the members are the addresses alive, and either the collector exists
  and is initialized or nothing stands in the way of creating it.
\<close>

definition registry_inv ::
  "(tid \<Rightarrow> class_sem) \<Rightarrow> tid \<Rightarrow> (addr \<rightharpoonup> AutoCollectable) \<Rightarrow> world \<Rightarrow> bool" where
  "registry_inv C K objs w =
     (C K = Collector_class \<and>
      (\<forall>a obj. objs a = Some obj \<longrightarrow> m_registered_in_collector obj) \<and>
      fset (members K w) = dom objs \<and>
      (if occupied K w then initialized (wrapper (helpers w K))
       else \<not> mutex (helpers w K) \<and> s_construct_stack_size w = 0 \<and>
            s_classes_under_construction w = []))"

text \<open>A class table in which every class is a collector.\<close>

definition collector_table :: "tid \<Rightarrow> class_sem" where
  "collector_table T = Collector_class"

section \<open>Lemmas\<close>

subsection \<open>Reading a state after an update\<close>

lemma seq_Ok: "seq m f = Ok y w' \<longleftrightarrow> (\<exists>x w1. m = Ok x w1 \<and> f x w1 = Ok y w')"
  by (cases m) (simp_all add: seq_def)

lemma helpers_set_raw_pointer [simp]:
  "helpers (set_raw_pointer T p w) =
     (helpers w)(T := (helpers w T)\<lparr>wrapper := (wrapper (helpers w T))\<lparr>raw_pointer := p\<rparr>\<rparr>)"
  by (simp add: set_raw_pointer_def)

lemma helpers_set_initialized [simp]:
  "helpers (set_initialized T b w) =
     (helpers w)(T := (helpers w T)\<lparr>wrapper := (wrapper (helpers w T))\<lparr>initialized := b\<rparr>\<rparr>)"
  by (simp add: set_initialized_def)

lemma helpers_set_mutex [simp]:
  "helpers (set_mutex T b w) = (helpers w)(T := (helpers w T)\<lparr>mutex := b\<rparr>)"
  by (simp add: set_mutex_def)

lemma rest_set_raw_pointer [simp]:
  "s_construct_stack_size (set_raw_pointer T p w) = s_construct_stack_size w"
  "s_classes_under_construction (set_raw_pointer T p w) = s_classes_under_construction w"
  "trace (set_raw_pointer T p w) = trace w"
  "next_free (set_raw_pointer T p w) = next_free w"
  "m_container (set_raw_pointer T p w) = m_container w"
  by (simp_all add: set_raw_pointer_def)

lemma rest_set_initialized [simp]:
  "s_construct_stack_size (set_initialized T b w) = s_construct_stack_size w"
  "s_classes_under_construction (set_initialized T b w) = s_classes_under_construction w"
  "trace (set_initialized T b w) = trace w"
  "next_free (set_initialized T b w) = next_free w"
  "m_container (set_initialized T b w) = m_container w"
  by (simp_all add: set_initialized_def)

lemma rest_set_mutex [simp]:
  "s_construct_stack_size (set_mutex T b w) = s_construct_stack_size w"
  "s_classes_under_construction (set_mutex T b w) = s_classes_under_construction w"
  "trace (set_mutex T b w) = trace w"
  "next_free (set_mutex T b w) = next_free w"
  "m_container (set_mutex T b w) = m_container w"
  by (simp_all add: set_mutex_def)

subsection \<open>What a run that returned went through\<close>

lemma lock_Ok: "lock T w = Ok x w' \<longleftrightarrow> \<not> mutex (helpers w T) \<and> w' = set_mutex T True w"
  by (auto simp: lock_def)

lemma pop_OkE:
  assumes "pop C w = Ok x w'"
  obtains (drain) w2 where "s_construct_stack_size w = 1"
      "call_hooks C (s_classes_under_construction w) (w\<lparr>s_construct_stack_size := 0\<rparr>) = Ok () w2"
      "w' = w2\<lparr>s_classes_under_construction := []\<rparr>"
    | (inner) "1 < s_construct_stack_size w"
      "w' = w\<lparr>s_construct_stack_size := s_construct_stack_size w - 1\<rparr>"
  using assms by (auto simp: pop_def Let_def seq_Ok split: if_splits)

lemma construct_OkE:
  assumes "construct C T w = Ok x w'"
  obtains w3 where "s_construct_stack_size w \<noteq> INT_MAX"
    "ctor (C T) (next_free w)
       ((set_raw_pointer T (Some (next_free w)) (w\<lparr>next_free := Suc (next_free w)\<rparr>))
          \<lparr>s_construct_stack_size := s_construct_stack_size w + 1,
           s_classes_under_construction := s_classes_under_construction w @ [(T, next_free w)],
           trace := trace w @ [Pushed (T, next_free w)]\<rparr>) = Ok () w3"
    "pop C (set_initialized T True
             ((set_raw_pointer T (Some (next_free w)) w3)
                \<lparr>trace := trace w3 @ [Constructed (next_free w)]\<rparr>)) = Ok x w'"
  using assms by (auto simp: construct_def seq_Ok malloc_def push_def split: if_splits)

lemma createInstance_OkE:
  assumes "createInstance C T w = Ok r w'"
  obtains w2 where "raw_pointer (wrapper (helpers w T)) = None" "\<not> mutex (helpers w T)"
    "construct C T (set_mutex T True w) = Ok () w2"
    "w' = unlock T w2" "r = wrapper (helpers w' T)"
  using assms by (auto simp: createInstance_def seq_Ok lock_Ok split: if_splits)

lemma Instance_OkE:
  assumes "Instance C T w = Ok r w'"
  obtains (present) "raw_pointer (wrapper (helpers w T)) \<noteq> None" "w' = w" "r = wrapper (helpers w T)"
    | (absent) w2 where "raw_pointer (wrapper (helpers w T)) = None" "\<not> mutex (helpers w T)"
        "construct C T (set_mutex T True w) = Ok () w2"
        "w' = unlock T w2" "r = wrapper (helpers w' T)"
proof (cases "raw_pointer (wrapper (helpers w T)) = None")
  case False
  from assms False have "w' = w" "r = wrapper (helpers w T)"
    by (auto simp: Instance_def)
  with False show ?thesis by (intro present)
next
  case True
  with assms obtain w2 where a: "\<not> mutex (helpers w T)"
    "construct C T (set_mutex T True w) = Ok () w2"
    and b: "Ok (wrapper (helpers (unlock T w2) T)) (unlock T w2) = Ok r w'"
    by (simp add: Instance_def seq_Ok lock_Ok) blast
  from b have "w' = unlock T w2" "r = wrapper (helpers w' T)" by auto
  with True a show ?thesis by (intro absent)
qed

lemma Singleton_dtor_Ok:
  "Singleton_dtor T w = Ok x w' \<longleftrightarrow>
     initialized (wrapper (helpers w T)) \<and> \<not> mutex (helpers w T) \<and>
     w' = unlock T (set_raw_pointer T None (set_initialized T False (set_mutex T True w)))"
  by (auto simp: Singleton_dtor_def seq_Ok lock_Ok)

lemma destructInstance_OkE:
  assumes "destructInstance C T w = Ok x w'"
  obtains p w1 where "raw_pointer (wrapper (helpers w T)) = Some p"
    "initialized (wrapper (helpers w T))" "dtor (C T) p w = Ok () w1"
    "Singleton_dtor T w1 = Ok () w'"
  using assms by (auto simp: destructInstance_def seq_Ok split: option.splits if_splits)

lemma getInstance_Ok:
  "getInstance T w = Ok p w' \<longleftrightarrow>
     raw_pointer (wrapper (helpers w T)) = Some p \<and> initialized (wrapper (helpers w T)) \<and> w' = w"
  by (auto simp: getInstance_def split: option.splits)

lemma getInstanceDuringBuilding_Ok:
  "getInstanceDuringBuilding T w = Ok p w' \<longleftrightarrow>
     raw_pointer (wrapper (helpers w T)) = Some p \<and> \<not> initialized (wrapper (helpers w T)) \<and> w' = w"
  by (auto simp: getInstanceDuringBuilding_def split: option.splits)

lemma arrow_Ok: "arrow pw w = Ok p w' \<longleftrightarrow> initialized pw \<and> p = raw_pointer pw \<and> w' = w"
  by (auto simp: arrow_def)

subsection \<open>Relations that all user code respects\<close>

lemma resp_exec_list:
  assumes refl: "\<And>w. R w w" and trans: "\<And>a b c. R a b \<Longrightarrow> R b c \<Longrightarrow> R a c"
    and f: "\<And>c. resp R (f c)"
  shows "resp R (exec_list f cs)"
  unfolding resp_def
proof (intro allI impI)
  fix w x w'
  assume "exec_list f cs w = Ok x w'"
  then show "R w w'"
  proof (induction cs arbitrary: w)
    case Nil
    then show ?case by (simp add: refl)
  next
    case (Cons c cs)
    then obtain w1 where "f c w = Ok () w1" "exec_list f cs w1 = Ok x w'"
      by (auto simp: seq_Ok)
    with Cons.IH f trans show ?case unfolding resp_def by blast
  qed
qed

lemma table_resp_table:
  assumes refl: "\<And>w. R w w" and trans: "\<And>a b c. R a b \<Longrightarrow> R b c \<Longrightarrow> R a c"
    and step: "\<And>C c. table_resp R C \<Longrightarrow> resp R (step C c)"
  shows "table_resp R (table P n)"
proof (induction n)
  case 0
  show ?case by (simp add: table_resp_def resp_def)
next
  case (Suc n)
  have "resp R (exec_list (step (table P n)) cs)" for cs
    by (rule resp_exec_list[OF refl trans step[OF Suc]])
  then show ?case by (simp add: table_resp_def)
qed

lemma call_hooks_resp:
  assumes refl: "\<And>w. R w w" and trans: "\<And>a b c. R a b \<Longrightarrow> R b c \<Longrightarrow> R a c"
    and tr: "\<And>w t. R w (w\<lparr>trace := t\<rparr>)"
    and C: "table_resp R C"
  shows "call_hooks C ps w = Ok x w' \<Longrightarrow> R w w'"
proof (induction ps arbitrary: w)
  case Nil
  then show ?case by (simp add: refl)
next
  case (Cons p ps)
  then obtain w1 where
    h: "postConstruction (C (fst p)) (snd p) (w\<lparr>trace := trace w @ [HookCalled p]\<rparr>) = Ok () w1"
    and r: "call_hooks C ps w1 = Ok x w'"
    by (auto simp: seq_Ok)
  from C h have "R (w\<lparr>trace := trace w @ [HookCalled p]\<rparr>) w1"
    unfolding table_resp_def resp_def by blast
  with tr Cons.IH[OF r] trans show ?case by blast
qed

lemma step_respI:
  assumes refl: "\<And>w. R w w"
    and create: "\<And>T. resp R (createInstance C T)"
    and inst: "\<And>T. resp R (Instance C T)"
    and destr: "\<And>T. resp R (destructInstance C T)"
  shows "resp R (step C c)"
proof (cases c)
  case (CreateInstance T)
  with create[of T] show ?thesis by (auto simp: resp_def step_def seq_Ok)
next
  case (InstanceCall T)
  with inst[of T] show ?thesis by (auto simp: resp_def step_def seq_Ok)
next
  case (InstanceArrow T)
  with inst[of T] show ?thesis by (auto simp: resp_def step_def seq_Ok arrow_Ok)
next
  case (GetInstance T)
  with refl show ?thesis by (auto simp: resp_def step_def seq_Ok getInstance_Ok)
next
  case (GetInstanceDuringBuilding T)
  with refl show ?thesis by (auto simp: resp_def step_def seq_Ok getInstanceDuringBuilding_Ok)
next
  case (DestructInstance T)
  with destr[of T] show ?thesis by (auto simp: resp_def step_def)
qed

lemma createInstance_respI:
  assumes "\<And>w w2. raw_pointer (wrapper (helpers w T)) = None \<Longrightarrow> \<not> mutex (helpers w T) \<Longrightarrow>
             construct C T (set_mutex T True w) = Ok () w2 \<Longrightarrow> R w (unlock T w2)"
  shows "resp R (createInstance C T)"
  unfolding resp_def
proof (intro allI impI)
  fix w r w'
  assume "createInstance C T w = Ok r w'"
  then show "R w w'" by (rule createInstance_OkE) (simp add: assms)
qed

lemma Instance_respI:
  assumes refl: "\<And>w. R w w"
    and "\<And>w w2. raw_pointer (wrapper (helpers w T)) = None \<Longrightarrow> \<not> mutex (helpers w T) \<Longrightarrow>
             construct C T (set_mutex T True w) = Ok () w2 \<Longrightarrow> R w (unlock T w2)"
  shows "resp R (Instance C T)"
  unfolding resp_def
proof (intro allI impI)
  fix w r w'
  assume "Instance C T w = Ok r w'"
  then show "R w w'" by (rule Instance_OkE) (simp_all add: assms)
qed

subsection \<open>The holder invariant\<close>

lemma keeps_holder_inv_refl: "keeps_holder_inv w w"
  by (simp add: keeps_holder_inv_def)

lemma keeps_holder_inv_trans:
  "keeps_holder_inv a b \<Longrightarrow> keeps_holder_inv b c \<Longrightarrow> keeps_holder_inv a c"
  by (simp add: keeps_holder_inv_def)

lemma pop_holder_inv:
  assumes C: "table_resp keeps_holder_inv C" and w: "holder_inv w" and p: "pop C w = Ok x w'"
  shows "holder_inv w'"
  using p
proof (cases rule: pop_OkE)
  case (drain w2)
  have "keeps_holder_inv (w\<lparr>s_construct_stack_size := 0\<rparr>) w2"
  proof (rule call_hooks_resp[where R = keeps_holder_inv, OF _ _ _ C drain(2)])
    show "keeps_holder_inv w (w\<lparr>trace := t\<rparr>)" for w t
      unfolding keeps_holder_inv_def holder_inv_def occupied_def by simp
  qed (fact keeps_holder_inv_refl, erule keeps_holder_inv_trans)
  with w drain(3) show ?thesis
    unfolding keeps_holder_inv_def holder_inv_def occupied_def by simp
next
  case inner
  with w show ?thesis unfolding holder_inv_def occupied_def by simp
qed

lemma construct_holder_inv:
  assumes C: "table_resp keeps_holder_inv C" and w: "holder_inv w"
    and c: "construct C T w = Ok x w'"
  shows "holder_inv w'"
  using c
proof (rule construct_OkE)
  fix w3
  assume ct: "ctor (C T) (next_free w)
       ((set_raw_pointer T (Some (next_free w)) (w\<lparr>next_free := Suc (next_free w)\<rparr>))
          \<lparr>s_construct_stack_size := s_construct_stack_size w + 1,
           s_classes_under_construction := s_classes_under_construction w @ [(T, next_free w)],
           trace := trace w @ [Pushed (T, next_free w)]\<rparr>) = Ok () w3"
    and p: "pop C (set_initialized T True
             ((set_raw_pointer T (Some (next_free w)) w3)
                \<lparr>trace := trace w3 @ [Constructed (next_free w)]\<rparr>)) = Ok x w'"
  from w have "holder_inv ((set_raw_pointer T (Some (next_free w)) (w\<lparr>next_free := Suc (next_free w)\<rparr>))
          \<lparr>s_construct_stack_size := s_construct_stack_size w + 1,
           s_classes_under_construction := s_classes_under_construction w @ [(T, next_free w)],
           trace := trace w @ [Pushed (T, next_free w)]\<rparr>)"
    unfolding holder_inv_def occupied_def by simp
  with C ct have "holder_inv w3"
    unfolding table_resp_def resp_def keeps_holder_inv_def by blast
  then have "holder_inv (set_initialized T True
             ((set_raw_pointer T (Some (next_free w)) w3)
                \<lparr>trace := trace w3 @ [Constructed (next_free w)]\<rparr>))"
    unfolding holder_inv_def occupied_def by simp
  with C show ?thesis using p by (rule pop_holder_inv)
qed

lemma construct_keeps_holder_inv:
  assumes C: "table_resp keeps_holder_inv C"
    and c: "construct C T (set_mutex T True w) = Ok () w2"
  shows "keeps_holder_inv w (unlock T w2)"
  unfolding keeps_holder_inv_def
proof
  assume "holder_inv w"
  then have "holder_inv (set_mutex T True w)" unfolding holder_inv_def occupied_def by simp
  with C have "holder_inv w2" using c by (rule construct_holder_inv)
  then show "holder_inv (unlock T w2)" unfolding holder_inv_def occupied_def unlock_def by simp
qed

lemma destructInstance_keeps_holder_inv:
  assumes C: "table_resp keeps_holder_inv C"
  shows "resp keeps_holder_inv (destructInstance C T)"
  unfolding resp_def
proof (intro allI impI)
  fix w x w'
  assume "destructInstance C T w = Ok x w'"
  then show "keeps_holder_inv w w'"
  proof (rule destructInstance_OkE)
    fix p w1
    assume d: "dtor (C T) p w = Ok () w1" and s: "Singleton_dtor T w1 = Ok () w'"
    from C d have "keeps_holder_inv w w1" unfolding table_resp_def resp_def by blast
    moreover from s have "keeps_holder_inv w1 w'"
      unfolding Singleton_dtor_Ok keeps_holder_inv_def holder_inv_def occupied_def unlock_def by simp
    ultimately show ?thesis by (rule keeps_holder_inv_trans)
  qed
qed

lemma step_keeps_holder_inv:
  assumes C: "table_resp keeps_holder_inv C"
  shows "resp keeps_holder_inv (step C c)"
  by (intro step_respI createInstance_respI Instance_respI keeps_holder_inv_refl
        construct_keeps_holder_inv[OF C] destructInstance_keeps_holder_inv[OF C])

lemma table_keeps_holder_inv: "table_resp keeps_holder_inv (table P n)"
  by (rule table_resp_table[where R = keeps_holder_inv])
     (fact keeps_holder_inv_refl, erule keeps_holder_inv_trans, assumption, erule step_keeps_holder_inv)

subsection \<open>A locked, occupied helper does not change\<close>

lemma frozen_refl: "frozen U w w"
  by (simp add: frozen_def)

lemma frozen_trans: "frozen U a b \<Longrightarrow> frozen U b c \<Longrightarrow> frozen U a c"
  unfolding frozen_def occupied_def by simp

lemma frozen_helpers: "helpers w' U = helpers w U \<Longrightarrow> frozen U w w'"
  by (simp add: frozen_def)

lemma pop_frozen:
  assumes C: "table_resp (frozen U) C" and p: "pop C w = Ok x w'"
  shows "frozen U w w'"
  using p
proof (cases rule: pop_OkE)
  case (drain w2)
  have "frozen U (w\<lparr>s_construct_stack_size := 0\<rparr>) w2"
  proof (rule call_hooks_resp[where R = "frozen U", OF _ _ _ C drain(2)])
    show "frozen U w (w\<lparr>trace := t\<rparr>)" for w t by (simp add: frozen_helpers)
  qed (fact frozen_refl, erule frozen_trans)
  with drain(3) show ?thesis unfolding frozen_def occupied_def by simp
next
  case inner
  then show ?thesis by (simp add: frozen_helpers)
qed

lemma construct_frozen:
  assumes C: "table_resp (frozen U) C" and T: "raw_pointer (wrapper (helpers w T)) = None"
    and c: "construct C T (set_mutex T True w) = Ok () w2"
  shows "frozen U w (unlock T w2)"
  unfolding frozen_def
proof
  assume U: "mutex (helpers w U) \<and> occupied U w"
  with T have ne: "T \<noteq> U" by (auto simp: occupied_def)
  from c show "helpers (unlock T w2) U = helpers w U"
  proof (rule construct_OkE)
    fix w3
    let ?wa = "(set_raw_pointer T (Some (next_free (set_mutex T True w)))
                 (set_mutex T True w\<lparr>next_free := Suc (next_free (set_mutex T True w))\<rparr>))
          \<lparr>s_construct_stack_size := s_construct_stack_size (set_mutex T True w) + 1,
           s_classes_under_construction :=
             s_classes_under_construction (set_mutex T True w) @ [(T, next_free (set_mutex T True w))],
           trace := trace (set_mutex T True w) @ [Pushed (T, next_free (set_mutex T True w))]\<rparr>"
    let ?wb = "set_initialized T True
             ((set_raw_pointer T (Some (next_free (set_mutex T True w))) w3)
                \<lparr>trace := trace w3 @ [Constructed (next_free (set_mutex T True w))]\<rparr>)"
    assume ct: "ctor (C T) (next_free (set_mutex T True w)) ?wa = Ok () w3"
      and p: "pop C ?wb = Ok () w2"
    from ne have a: "helpers ?wa U = helpers w U" by simp
    from C ct have "frozen U ?wa w3" unfolding table_resp_def resp_def by blast
    with a U have b: "helpers w3 U = helpers w U" unfolding frozen_def occupied_def by simp
    with ne have "helpers ?wb U = helpers w U" by simp
    moreover from C p have "frozen U ?wb w2" by (rule pop_frozen)
    ultimately have "helpers w2 U = helpers w U" using U unfolding frozen_def occupied_def by simp
    with ne show ?thesis by (simp add: unlock_def)
  qed
qed

lemma destructInstance_frozen:
  assumes C: "table_resp (frozen U) C"
  shows "resp (frozen U) (destructInstance C T)"
  unfolding resp_def
proof (intro allI impI)
  fix w x w'
  assume "destructInstance C T w = Ok x w'"
  then show "frozen U w w'"
  proof (rule destructInstance_OkE)
    fix p w1
    assume d: "dtor (C T) p w = Ok () w1" and s: "Singleton_dtor T w1 = Ok () w'"
    from C d have f: "frozen U w w1" unfolding table_resp_def resp_def by blast
    show ?thesis unfolding frozen_def
    proof
      assume U: "mutex (helpers w U) \<and> occupied U w"
      with f have e: "helpers w1 U = helpers w U" by (simp add: frozen_def)
      with U s have "T \<noteq> U" by (auto simp: Singleton_dtor_Ok)
      with s e show "helpers w' U = helpers w U" by (simp add: Singleton_dtor_Ok unlock_def)
    qed
  qed
qed

lemma step_frozen:
  assumes C: "table_resp (frozen U) C"
  shows "resp (frozen U) (step C c)"
  by (intro step_respI createInstance_respI Instance_respI frozen_refl
        construct_frozen[OF C] destructInstance_frozen[OF C])

lemma table_frozen: "table_resp (frozen U) (table P n)"
  by (rule table_resp_table[where R = "frozen U"])
     (fact frozen_refl, erule frozen_trans, assumption, erule step_frozen)

subsection \<open>User code leaves the depth as it found it\<close>

lemma same_depth_refl: "same_depth w w"
  by (simp add: same_depth_def)

lemma same_depth_trans: "same_depth a b \<Longrightarrow> same_depth b c \<Longrightarrow> same_depth a c"
  by (simp add: same_depth_def)

lemma call_hooks_same_depth:
  assumes C: "table_resp same_depth C" and h: "call_hooks C ps w = Ok x w'"
  shows "s_construct_stack_size w' = s_construct_stack_size w"
proof -
  have "same_depth w w'"
  proof (rule call_hooks_resp[where R = same_depth, OF _ _ _ C h])
    show "same_depth w (w\<lparr>trace := t\<rparr>)" for w t by (simp add: same_depth_def)
  qed (fact same_depth_refl, erule same_depth_trans)
  then show ?thesis by (simp add: same_depth_def)
qed

lemma pop_depth:
  assumes C: "table_resp same_depth C" and p: "pop C w = Ok x w'"
  shows "s_construct_stack_size w' = s_construct_stack_size w - 1"
  using p
proof (cases rule: pop_OkE)
  case (drain w2)
  from call_hooks_same_depth[OF C drain(2)] drain(1,3) show ?thesis by simp
next
  case inner
  then show ?thesis by simp
qed

lemma construct_same_depth:
  assumes C: "table_resp same_depth C" and c: "construct C T w = Ok x w'"
  shows "s_construct_stack_size w' = s_construct_stack_size w"
  using c
proof (rule construct_OkE)
  fix w3
  let ?wa = "(set_raw_pointer T (Some (next_free w)) (w\<lparr>next_free := Suc (next_free w)\<rparr>))
          \<lparr>s_construct_stack_size := s_construct_stack_size w + 1,
           s_classes_under_construction := s_classes_under_construction w @ [(T, next_free w)],
           trace := trace w @ [Pushed (T, next_free w)]\<rparr>"
  let ?wb = "set_initialized T True
             ((set_raw_pointer T (Some (next_free w)) w3)
                \<lparr>trace := trace w3 @ [Constructed (next_free w)]\<rparr>)"
  assume ct: "ctor (C T) (next_free w) ?wa = Ok () w3" and p: "pop C ?wb = Ok x w'"
  from C ct have "same_depth ?wa w3" unfolding table_resp_def resp_def by blast
  then have "s_construct_stack_size ?wb = s_construct_stack_size w + 1"
    by (simp add: same_depth_def)
  with pop_depth[OF C p] show ?thesis by simp
qed

lemma destructInstance_same_depth:
  assumes C: "table_resp same_depth C"
  shows "resp same_depth (destructInstance C T)"
  unfolding resp_def
proof (intro allI impI)
  fix w x w'
  assume "destructInstance C T w = Ok x w'"
  then show "same_depth w w'"
  proof (rule destructInstance_OkE)
    fix p w1
    assume d: "dtor (C T) p w = Ok () w1" and s: "Singleton_dtor T w1 = Ok () w'"
    from C d have "same_depth w w1" unfolding table_resp_def resp_def by blast
    with s show ?thesis by (simp add: Singleton_dtor_Ok same_depth_def unlock_def)
  qed
qed

lemma step_same_depth:
  assumes C: "table_resp same_depth C"
  shows "resp same_depth (step C c)"
proof (intro step_respI createInstance_respI Instance_respI same_depth_refl
        destructInstance_same_depth[OF C])
  fix w w2 T
  assume "construct C T (set_mutex T True w) = Ok () w2"
  from construct_same_depth[OF C this] show "same_depth w (unlock T w2)"
    by (simp add: same_depth_def unlock_def)
next
  fix w w2 T
  assume "construct C T (set_mutex T True w) = Ok () w2"
  from construct_same_depth[OF C this] show "same_depth w (unlock T w2)"
    by (simp add: same_depth_def unlock_def)
qed

lemma table_same_depth: "table_resp same_depth (table P n)"
  by (rule table_resp_table[where R = same_depth])
     (fact same_depth_refl, erule same_depth_trans, assumption, erule step_same_depth)

subsection \<open>While a construction is in flight\<close>

lemma hooks_of_append: "hooks_of (s @ t) = hooks_of s @ hooks_of t"
  by (induction s rule: hooks_of.induct) simp_all

lemma pushed_of_append: "pushed_of (s @ t) = pushed_of s @ pushed_of t"
  by (induction s rule: pushed_of.induct) simp_all

lemma constructed_of_append: "constructed_of (s @ t) = constructed_of s @ constructed_of t"
  by (induction s rule: constructed_of.induct) simp_all

lemma hooks_of_map_HookCalled: "hooks_of (map HookCalled ps) = ps"
  by (induction ps) simp_all

lemma pushed_of_map_HookCalled: "pushed_of (map HookCalled ps) = []"
  by (induction ps) simp_all

lemma constructed_of_map_HookCalled: "constructed_of (map HookCalled ps) = []"
  by (induction ps) simp_all

lemma nested_refl: "nested w w"
  by (simp add: nested_def)

lemma nested_trans:
  assumes "nested a b" "nested b c"
  shows "nested a c"
  unfolding nested_def
proof
  assume pos: "0 < s_construct_stack_size a"
  with assms(1) obtain s where ab: "s_construct_stack_size b = s_construct_stack_size a"
    "trace b = trace a @ s" "hooks_of s = []"
    "s_classes_under_construction b = s_classes_under_construction a @ pushed_of s"
    by (auto simp: nested_def)
  with pos assms(2) obtain t where bc: "s_construct_stack_size c = s_construct_stack_size b"
    "trace c = trace b @ t" "hooks_of t = []"
    "s_classes_under_construction c = s_classes_under_construction b @ pushed_of t"
    by (auto simp: nested_def)
  from ab bc have "trace c = trace a @ (s @ t) \<and> hooks_of (s @ t) = [] \<and>
      s_classes_under_construction c = s_classes_under_construction a @ pushed_of (s @ t)"
    by (simp add: hooks_of_append pushed_of_append)
  with ab(1) bc(1)
  show "s_construct_stack_size c = s_construct_stack_size a \<and>
        (\<exists>t. trace c = trace a @ t \<and> hooks_of t = [] \<and>
             s_classes_under_construction c = s_classes_under_construction a @ pushed_of t)"
    by metis
qed

text \<open>The constructor of an outer or inner construction, seen from the state before the push.\<close>

lemma construct_ctor_nested:
  assumes C: "table_resp nested C" and d: "0 \<le> s_construct_stack_size w"
    and ct: "ctor (C T) a
       ((set_raw_pointer T (Some a) (w\<lparr>next_free := Suc (next_free w)\<rparr>))
          \<lparr>s_construct_stack_size := s_construct_stack_size w + 1,
           s_classes_under_construction := s_classes_under_construction w @ [(T, a)],
           trace := trace w @ [Pushed (T, a)]\<rparr>) = Ok () w3"
  shows "s_construct_stack_size w3 = s_construct_stack_size w + 1 \<and>
         (\<exists>t. trace w3 = trace w @ Pushed (T, a) # t \<and> hooks_of t = [] \<and>
              s_classes_under_construction w3 =
                s_classes_under_construction w @ (T, a) # pushed_of t)"
proof -
  from C ct have "nested ((set_raw_pointer T (Some a) (w\<lparr>next_free := Suc (next_free w)\<rparr>))
          \<lparr>s_construct_stack_size := s_construct_stack_size w + 1,
           s_classes_under_construction := s_classes_under_construction w @ [(T, a)],
           trace := trace w @ [Pushed (T, a)]\<rparr>) w3"
    unfolding table_resp_def resp_def by blast
  with d show ?thesis by (auto simp: nested_def)
qed

lemma construct_nested:
  assumes C: "table_resp nested C" and c: "construct C T (set_mutex T True w) = Ok () w2"
  shows "nested w (unlock T w2)"
  unfolding nested_def
proof
  assume pos: "0 < s_construct_stack_size w"
  let ?w = "set_mutex T True w"
  from c show "s_construct_stack_size (unlock T w2) = s_construct_stack_size w \<and>
        (\<exists>t. trace (unlock T w2) = trace w @ t \<and> hooks_of t = [] \<and>
             s_classes_under_construction (unlock T w2) =
               s_classes_under_construction w @ pushed_of t)"
  proof (rule construct_OkE)
    fix w3
    let ?wb = "set_initialized T True
             ((set_raw_pointer T (Some (next_free ?w)) w3)
                \<lparr>trace := trace w3 @ [Constructed (next_free ?w)]\<rparr>)"
    assume ct: "ctor (C T) (next_free ?w)
       ((set_raw_pointer T (Some (next_free ?w)) (?w\<lparr>next_free := Suc (next_free ?w)\<rparr>))
          \<lparr>s_construct_stack_size := s_construct_stack_size ?w + 1,
           s_classes_under_construction := s_classes_under_construction ?w @ [(T, next_free ?w)],
           trace := trace ?w @ [Pushed (T, next_free ?w)]\<rparr>) = Ok () w3"
      and p: "pop C ?wb = Ok () w2"
    from pos have "0 \<le> s_construct_stack_size ?w" by simp
    from construct_ctor_nested[OF C this ct] obtain t where
      t: "s_construct_stack_size w3 = s_construct_stack_size w + 1"
        "trace w3 = trace w @ Pushed (T, next_free w) # t" "hooks_of t = []"
        "s_classes_under_construction w3 =
           s_classes_under_construction w @ (T, next_free w) # pushed_of t"
      by auto
    from p show ?thesis
    proof (cases rule: pop_OkE)
      case (drain w4)
      with t(1) pos show ?thesis by simp
    next
      case inner
      with t have "s_construct_stack_size (unlock T w2) = s_construct_stack_size w"
        "trace (unlock T w2) = trace w @ (Pushed (T, next_free w) # t @ [Constructed (next_free w)])"
        "hooks_of (Pushed (T, next_free w) # t @ [Constructed (next_free w)]) = []"
        "s_classes_under_construction (unlock T w2) = s_classes_under_construction w @
           pushed_of (Pushed (T, next_free w) # t @ [Constructed (next_free w)])"
        by (simp_all add: unlock_def hooks_of_append pushed_of_append)
      then show ?thesis by blast
    qed
  qed
qed

lemma destructInstance_nested:
  assumes C: "table_resp nested C"
  shows "resp nested (destructInstance C T)"
  unfolding resp_def
proof (intro allI impI)
  fix w x w'
  assume "destructInstance C T w = Ok x w'"
  then show "nested w w'"
  proof (rule destructInstance_OkE)
    fix p w1
    assume d: "dtor (C T) p w = Ok () w1" and s: "Singleton_dtor T w1 = Ok () w'"
    from C d have "nested w w1" unfolding table_resp_def resp_def by blast
    moreover from s have "nested w1 w'"
      by (simp add: Singleton_dtor_Ok nested_def unlock_def)
    ultimately show ?thesis by (rule nested_trans)
  qed
qed

lemma step_nested:
  assumes C: "table_resp nested C"
  shows "resp nested (step C c)"
  by (intro step_respI createInstance_respI Instance_respI nested_refl
        construct_nested[OF C] destructInstance_nested[OF C])

lemma table_nested: "table_resp nested (table P n)"
  by (rule table_resp_table[where R = nested])
     (fact nested_refl, erule nested_trans, assumption, erule step_nested)

subsection \<open>Hooks that only look up\<close>

lemma step_looks_up: "looks_up c \<Longrightarrow> step C c w = Ok x w' \<Longrightarrow> w' = w"
  by (cases c) (auto simp: step_def seq_Ok getInstance_Ok getInstanceDuringBuilding_Ok)

lemma exec_list_looks_up:
  "list_all looks_up cs \<Longrightarrow> exec_list (step C) cs w = Ok x w' \<Longrightarrow> w' = w"
proof (induction cs arbitrary: w)
  case Nil
  then show ?case by simp
next
  case (Cons c cs)
  then obtain w1 where "step C c w = Ok () w1" "exec_list (step C) cs w1 = Ok x w'"
    by (auto simp: seq_Ok)
  with Cons show ?case by (auto dest: step_looks_up)
qed

lemma hook_looks_up:
  assumes "hooks_only_look_up P" "postConstruction (table P n T) this w = Ok x w'"
  shows "w' = w"
proof (cases n)
  case 0
  with assms(2) show ?thesis by simp
next
  case (Suc m)
  with assms show ?thesis
    by (auto simp: hooks_only_look_up_def dest: exec_list_looks_up)
qed

lemma call_hooks_look_up:
  assumes P: "hooks_only_look_up P"
  shows "call_hooks (table P n) ps w = Ok x w' \<Longrightarrow> w' = w\<lparr>trace := trace w @ map HookCalled ps\<rparr>"
proof (induction ps arbitrary: w)
  case Nil
  then show ?case by simp
next
  case (Cons p ps)
  then obtain w1 where
    h: "postConstruction (table P n (fst p)) (snd p) (w\<lparr>trace := trace w @ [HookCalled p]\<rparr>) = Ok () w1"
    and r: "call_hooks (table P n) ps w1 = Ok x w'"
    by (auto simp: seq_Ok)
  from hook_looks_up[OF P h] Cons.IH[OF r] show ?case by simp
qed

subsection \<open>The trace only grows\<close>

lemma trace_grows_refl: "trace_grows w w"
  by (simp add: trace_grows_def)

lemma trace_grows_trans: "trace_grows a b \<Longrightarrow> trace_grows b c \<Longrightarrow> trace_grows a c"
  by (auto simp: trace_grows_def)

lemma trace_grows_same: "trace w' = trace w @ s \<Longrightarrow> trace_grows w w'"
  by (auto simp: trace_grows_def)

lemma call_hooks_trace:
  assumes C: "table_resp trace_grows C"
  shows "call_hooks C ps w = Ok x w' \<Longrightarrow>
           \<exists>ss. length ss = length ps \<and> trace w' = trace w @ drain_trace ps ss"
proof (induction ps arbitrary: w)
  case Nil
  then show ?case by simp
next
  case (Cons p ps)
  then obtain w1 where
    h: "postConstruction (C (fst p)) (snd p) (w\<lparr>trace := trace w @ [HookCalled p]\<rparr>) = Ok () w1"
    and r: "call_hooks C ps w1 = Ok x w'"
    by (auto simp: seq_Ok)
  from C h have "trace_grows (w\<lparr>trace := trace w @ [HookCalled p]\<rparr>) w1"
    unfolding table_resp_def resp_def by blast
  then obtain s where s: "trace w1 = trace w @ HookCalled p # s" by (auto simp: trace_grows_def)
  from Cons.IH[OF r] obtain ss where "length ss = length ps" "trace w' = trace w1 @ drain_trace ps ss"
    by blast
  with s have "length (s # ss) = length (p # ps) \<and> trace w' = trace w @ drain_trace (p # ps) (s # ss)"
    by simp
  then show ?case by blast
qed

lemma pop_trace_grows:
  assumes C: "table_resp trace_grows C" and p: "pop C w = Ok x w'"
  shows "trace_grows w w'"
  using p
proof (cases rule: pop_OkE)
  case (drain w2)
  from call_hooks_trace[OF C drain(2)] drain(3) show ?thesis by (auto simp: trace_grows_def)
next
  case inner
  then show ?thesis by (simp add: trace_grows_def)
qed

lemma construct_trace_grows:
  assumes C: "table_resp trace_grows C" and c: "construct C T (set_mutex T True w) = Ok () w2"
  shows "trace_grows w (unlock T w2)"
  using c
proof (rule construct_OkE)
  fix w3
  let ?w = "set_mutex T True w"
  let ?wa = "(set_raw_pointer T (Some (next_free ?w)) (?w\<lparr>next_free := Suc (next_free ?w)\<rparr>))
          \<lparr>s_construct_stack_size := s_construct_stack_size ?w + 1,
           s_classes_under_construction := s_classes_under_construction ?w @ [(T, next_free ?w)],
           trace := trace ?w @ [Pushed (T, next_free ?w)]\<rparr>"
  let ?wb = "set_initialized T True
             ((set_raw_pointer T (Some (next_free ?w)) w3)
                \<lparr>trace := trace w3 @ [Constructed (next_free ?w)]\<rparr>)"
  assume ct: "ctor (C T) (next_free ?w) ?wa = Ok () w3" and p: "pop C ?wb = Ok () w2"
  have "trace_grows w ?wa" by (simp add: trace_grows_def)
  moreover from C ct have "trace_grows ?wa w3" unfolding table_resp_def resp_def by blast
  moreover have "trace_grows w3 ?wb" by (simp add: trace_grows_def)
  moreover from C p have "trace_grows ?wb w2" by (rule pop_trace_grows)
  moreover have "trace_grows w2 (unlock T w2)" by (simp add: trace_grows_def unlock_def)
  ultimately show ?thesis by (blast intro: trace_grows_trans)
qed

lemma destructInstance_trace_grows:
  assumes C: "table_resp trace_grows C"
  shows "resp trace_grows (destructInstance C T)"
  unfolding resp_def
proof (intro allI impI)
  fix w x w'
  assume "destructInstance C T w = Ok x w'"
  then show "trace_grows w w'"
  proof (rule destructInstance_OkE)
    fix p w1
    assume d: "dtor (C T) p w = Ok () w1" and s: "Singleton_dtor T w1 = Ok () w'"
    from C d have "trace_grows w w1" unfolding table_resp_def resp_def by blast
    moreover from s have "trace_grows w1 w'"
      by (simp add: Singleton_dtor_Ok trace_grows_def unlock_def)
    ultimately show ?thesis by (rule trace_grows_trans)
  qed
qed

lemma step_trace_grows:
  assumes C: "table_resp trace_grows C"
  shows "resp trace_grows (step C c)"
  by (intro step_respI createInstance_respI Instance_respI trace_grows_refl
        construct_trace_grows[OF C] destructInstance_trace_grows[OF C])

lemma table_trace_grows: "table_resp trace_grows (table P n)"
  by (rule table_resp_table[where R = trace_grows])
     (fact trace_grows_refl, erule trace_grows_trans, assumption, erule step_trace_grows)

lemma drain_trace_Nils: "drain_trace ps (replicate (length ps) []) = map HookCalled ps"
  by (induction ps) simp_all

subsection \<open>Sequences of push and pop\<close>

lemma coord_step_inv:
  assumes C: "table_resp same_depth C" and i: "coord_inv w" and s: "coord_step C op w = Ok x w'"
  shows "coord_inv w'"
proof (cases op)
  case (Push p)
  with s i show ?thesis by (auto simp: coord_step_def push_def coord_inv_def split: if_splits)
next
  case Pop
  with s have p: "pop C w = Ok x w'" by (simp add: coord_step_def)
  then show ?thesis
  proof (cases rule: pop_OkE)
    case (drain w2)
    from call_hooks_same_depth[OF C drain(2)] drain(3) show ?thesis by (simp add: coord_inv_def)
  next
    case inner
    then show ?thesis by (simp add: coord_inv_def)
  qed
qed

lemma run_ops_inv:
  assumes C: "table_resp same_depth C"
  shows "coord_inv w \<Longrightarrow> run_ops C ops w = Ok x w' \<Longrightarrow> coord_inv w'"
proof (induction ops arbitrary: w)
  case Nil
  then show ?case by simp
next
  case (Cons op ops)
  from Cons.prems(2) obtain w1 where s: "coord_step C op w = Ok () w1"
    and r: "run_ops C ops w1 = Ok x w'"
    by (auto simp: seq_Ok)
  from coord_step_inv[OF C Cons.prems(1) s] r show ?case by (rule Cons.IH)
qed

lemma pop_clears:
  assumes C: "table_resp same_depth C" and p: "pop C w = Ok x w'"
    and z: "s_construct_stack_size w' = 0"
  shows "s_classes_under_construction w' = []"
  using p
proof (cases rule: pop_OkE)
  case (drain w2)
  then show ?thesis by simp
next
  case inner
  with z show ?thesis by simp
qed

subsection \<open>The coordinator stays in order through user code\<close>

lemma keeps_coord_inv_refl: "keeps_coord_inv w w"
  by (simp add: keeps_coord_inv_def)

lemma keeps_coord_inv_trans:
  "keeps_coord_inv a b \<Longrightarrow> keeps_coord_inv b c \<Longrightarrow> keeps_coord_inv a c"
  by (simp add: keeps_coord_inv_def)

lemma keeps_coord_inv_same_depth:
  assumes "table_resp keeps_coord_inv C"
  shows "table_resp same_depth C"
  using assms unfolding table_resp_def resp_def keeps_coord_inv_def same_depth_def by blast

lemma construct_keeps_coord_inv:
  assumes C: "table_resp keeps_coord_inv C" and c: "construct C T (set_mutex T True w) = Ok () w2"
  shows "keeps_coord_inv w (unlock T w2)"
proof -
  note D = keeps_coord_inv_same_depth[OF C]
  from construct_same_depth[OF D c]
  have d: "s_construct_stack_size (unlock T w2) = s_construct_stack_size w"
    by (simp add: unlock_def)
  have "coord_inv (unlock T w2)" if i: "coord_inv w"
    using c
  proof (rule construct_OkE)
    fix w3
    let ?w = "set_mutex T True w"
    let ?wa = "(set_raw_pointer T (Some (next_free ?w)) (?w\<lparr>next_free := Suc (next_free ?w)\<rparr>))
          \<lparr>s_construct_stack_size := s_construct_stack_size ?w + 1,
           s_classes_under_construction := s_classes_under_construction ?w @ [(T, next_free ?w)],
           trace := trace ?w @ [Pushed (T, next_free ?w)]\<rparr>"
    let ?wb = "set_initialized T True
             ((set_raw_pointer T (Some (next_free ?w)) w3)
                \<lparr>trace := trace w3 @ [Constructed (next_free ?w)]\<rparr>)"
    assume ct: "ctor (C T) (next_free ?w) ?wa = Ok () w3" and p: "pop C ?wb = Ok () w2"
    from i have "coord_inv ?wa" by (simp add: coord_inv_def)
    with C ct have "coord_inv w3" unfolding table_resp_def resp_def keeps_coord_inv_def by blast
    then have "coord_inv ?wb" by (simp add: coord_inv_def)
    from coord_step_inv[OF D this, of Pop "()" w2] p have "coord_inv w2"
      by (simp add: coord_step_def)
    then show ?thesis by (simp add: coord_inv_def unlock_def)
  qed
  with d show ?thesis by (simp add: keeps_coord_inv_def)
qed

lemma destructInstance_keeps_coord_inv:
  assumes C: "table_resp keeps_coord_inv C"
  shows "resp keeps_coord_inv (destructInstance C T)"
  unfolding resp_def
proof (intro allI impI)
  fix w x w'
  assume "destructInstance C T w = Ok x w'"
  then show "keeps_coord_inv w w'"
  proof (rule destructInstance_OkE)
    fix p w1
    assume d: "dtor (C T) p w = Ok () w1" and s: "Singleton_dtor T w1 = Ok () w'"
    from C d have "keeps_coord_inv w w1" unfolding table_resp_def resp_def by blast
    moreover from s have "keeps_coord_inv w1 w'"
      by (simp add: Singleton_dtor_Ok keeps_coord_inv_def coord_inv_def unlock_def)
    ultimately show ?thesis by (rule keeps_coord_inv_trans)
  qed
qed

lemma step_keeps_coord_inv:
  assumes C: "table_resp keeps_coord_inv C"
  shows "resp keeps_coord_inv (step C c)"
  by (intro step_respI createInstance_respI Instance_respI keeps_coord_inv_refl
        construct_keeps_coord_inv[OF C] destructInstance_keeps_coord_inv[OF C])

lemma table_keeps_coord_inv: "table_resp keeps_coord_inv (table P n)"
  by (rule table_resp_table[where R = keeps_coord_inv])
     (fact keeps_coord_inv_refl, erule keeps_coord_inv_trans, assumption, erule step_keeps_coord_inv)

lemma exec_keeps_coord_inv:
  assumes "coord_inv w" "exec P n cs w = Ok x w'"
  shows "coord_inv w'"
proof -
  have "resp keeps_coord_inv (exec_list (step (table P n)) cs)"
  proof (rule resp_exec_list[where R = keeps_coord_inv])
    show "keeps_coord_inv w w" for w by (rule keeps_coord_inv_refl)
    show "keeps_coord_inv a c" if "keeps_coord_inv a b" "keeps_coord_inv b c" for a b c
      using that by (rule keeps_coord_inv_trans)
    show "resp keeps_coord_inv (step (table P n) c)" for c
      by (rule step_keeps_coord_inv[OF table_keeps_coord_inv])
  qed
  with assms show ?thesis unfolding resp_def keeps_coord_inv_def exec_def by blast
qed

subsection \<open>More fuel changes no result\<close>

lemma settles_refl: "settles a a"
  by (simp add: settles_def)

lemma settles_trans: "settles a b \<Longrightarrow> settles b c \<Longrightarrow> settles a c"
  by (auto simp: settles_def)

lemma settles_seq:
  assumes "settles m m'" and "\<And>x w. settles (f x w) (f' x w)"
  shows "settles (seq m f) (seq m' f')"
proof (cases "m = OutOfFuel")
  case True
  then show ?thesis by (simp add: settles_def seq_def)
next
  case False
  with assms(1) have "m' = m" by (simp add: settles_def)
  with assms(2) show ?thesis by (cases m) (simp_all add: seq_def settles_refl)
qed

lemma settles_if:
  "(b \<Longrightarrow> settles x x') \<Longrightarrow> (\<not> b \<Longrightarrow> settles y y') \<Longrightarrow>
     settles (if b then x else y) (if b then x' else y')"
  by simp

lemma call_hooks_settles:
  assumes "table_settles C D"
  shows "settles (call_hooks C ps w) (call_hooks D ps w)"
proof (induction ps arbitrary: w)
  case Nil
  show ?case by (simp add: settles_refl)
next
  case (Cons p ps)
  from assms have "settles (postConstruction (C (fst p)) (snd p) (w\<lparr>trace := trace w @ [HookCalled p]\<rparr>))
     (postConstruction (D (fst p)) (snd p) (w\<lparr>trace := trace w @ [HookCalled p]\<rparr>))"
    by (simp add: table_settles_def)
  with Cons.IH show ?case by (simp add: settles_seq)
qed

lemma pop_settles:
  assumes "table_settles C D"
  shows "settles (pop C w) (pop D w)"
  unfolding pop_def Let_def
  by (intro settles_if settles_seq settles_refl call_hooks_settles[OF assms])

lemma construct_settles:
  assumes "table_settles C D"
  shows "settles (construct C T w) (construct D T w)"
proof -
  have "settles (ctor (C T) a v) (ctor (D T) a v)" for a v
    using assms by (simp add: table_settles_def)
  then show ?thesis
    unfolding construct_def
    by (intro settles_seq settles_refl pop_settles[OF assms])
qed

lemma createInstance_settles:
  assumes "table_settles C D"
  shows "settles (createInstance C T w) (createInstance D T w)"
  unfolding createInstance_def
  by (intro settles_if settles_seq settles_refl construct_settles[OF assms])

lemma Instance_settles:
  assumes "table_settles C D"
  shows "settles (Instance C T w) (Instance D T w)"
  unfolding Instance_def
  by (intro settles_if settles_seq settles_refl construct_settles[OF assms])

lemma destructInstance_settles:
  assumes "table_settles C D"
  shows "settles (destructInstance C T w) (destructInstance D T w)"
proof -
  have "settles (dtor (C T) a v) (dtor (D T) a v)" for a v
    using assms by (simp add: table_settles_def)
  then show ?thesis
    unfolding destructInstance_def
    by (auto split: option.splits intro!: settles_seq settles_refl)
qed

lemma step_settles:
  assumes "table_settles C D"
  shows "settles (step C c w) (step D c w)"
  by (cases c)
     (simp_all add: step_def settles_seq settles_refl createInstance_settles[OF assms]
        Instance_settles[OF assms] destructInstance_settles[OF assms])

lemma exec_list_settles:
  assumes "\<And>c w. settles (f c w) (g c w)"
  shows "settles (exec_list f cs w) (exec_list g cs w)"
proof (induction cs arbitrary: w)
  case Nil
  show ?case by (simp add: settles_refl)
next
  case (Cons c cs)
  with assms show ?case by (simp add: settles_seq)
qed

lemma table_settles_Suc: "table_settles (table P n) (table P (Suc n))"
proof (induction n)
  case 0
  show ?case by (simp add: table_settles_def settles_def)
next
  case (Suc n)
  have "settles (exec_list (step (table P n)) cs w) (exec_list (step (table P (Suc n))) cs w)"
    for cs w
    by (rule exec_list_settles) (rule step_settles[OF Suc])
  then show ?case by (simp add: table_settles_def)
qed

lemma table_settles_trans:
  "table_settles C D \<Longrightarrow> table_settles D E \<Longrightarrow> table_settles C E"
  unfolding table_settles_def by (blast intro: settles_trans)

lemma table_settles_add: "table_settles (table P n) (table P (n + k))"
proof (induction k)
  case 0
  show ?case by (simp add: table_settles_def settles_refl)
next
  case (Suc k)
  from Suc table_settles_Suc[of P "n + k"] show ?case
    by (simp add: table_settles_trans)
qed

text \<open>
  User code that returned or aborted within a bound on nesting does the same within
  every larger bound.
\<close>

lemma exec_more_fuel:
  assumes "exec P n cs w \<noteq> OutOfFuel"
  shows "exec P (n + k) cs w = exec P n cs w"
proof -
  have "settles (exec P n cs w) (exec P (n + k) cs w)"
    unfolding exec_def by (rule exec_list_settles) (rule step_settles[OF table_settles_add])
  with assms show ?thesis by (simp add: settles_def)
qed

lemma createInstance_more_fuel:
  assumes "createInstance (table P n) T w \<noteq> OutOfFuel"
  shows "createInstance (table P (n + k)) T w = createInstance (table P n) T w"
  using createInstance_settles[OF table_settles_add[of P n k], where T = T and w = w] assms
  by (simp add: settles_def)

subsection \<open>An empty slot stays empty until an instance is made\<close>

lemma stays_empty_refl: "stays_empty T w w"
  by (simp add: stays_empty_def)

lemma stays_empty_trans: "stays_empty T a b \<Longrightarrow> stays_empty T b c \<Longrightarrow> stays_empty T a c"
  by (simp add: stays_empty_def)

lemma stays_empty_helpers: "helpers w' T = helpers w T \<Longrightarrow> stays_empty T w w'"
  by (simp add: stays_empty_def occupied_def)

lemma resp_exec_list_on:
  assumes refl: "\<And>w. R w w" and trans: "\<And>a b c. R a b \<Longrightarrow> R b c \<Longrightarrow> R a c"
    and f: "\<And>c. c \<in> set cs \<Longrightarrow> resp R (f c)"
  shows "resp R (exec_list f cs)"
  unfolding resp_def
proof (intro allI impI)
  fix w x w'
  assume "exec_list f cs w = Ok x w'"
  with f show "R w w'"
  proof (induction cs arbitrary: w)
    case Nil
    then show ?case by (simp add: refl)
  next
    case (Cons c cs)
    from Cons.prems(2) obtain w1 where a: "f c w = Ok () w1" and b: "exec_list f cs w1 = Ok x w'"
      by (auto simp: seq_Ok)
    from Cons.prems(1)[of c] a have "R w w1" unfolding resp_def by simp
    moreover have "R w1 w'" using Cons.IH[OF _ b] Cons.prems(1) by simp
    ultimately show ?case by (rule trans)
  qed
qed

lemma pop_stays_empty:
  assumes C: "table_resp (stays_empty T) C" and p: "pop C w = Ok x w'"
  shows "stays_empty T w w'"
  using p
proof (cases rule: pop_OkE)
  case (drain w2)
  have "stays_empty T (w\<lparr>s_construct_stack_size := 0\<rparr>) w2"
  proof (rule call_hooks_resp[where R = "stays_empty T", OF _ _ _ C drain(2)])
    show "stays_empty T w (w\<lparr>trace := t\<rparr>)" for w t by (simp add: stays_empty_helpers)
  qed (fact stays_empty_refl, erule stays_empty_trans)
  with drain(3) show ?thesis unfolding stays_empty_def occupied_def by simp
next
  case inner
  then show ?thesis by (simp add: stays_empty_helpers)
qed

lemma construct_stays_empty:
  assumes C: "table_resp (stays_empty T) C" and ne: "U \<noteq> T"
    and c: "construct C U (set_mutex U True w) = Ok () w2"
  shows "stays_empty T w (unlock U w2)"
  using c
proof (rule construct_OkE)
  fix w3
  let ?w = "set_mutex U True w"
  let ?wa = "(set_raw_pointer U (Some (next_free ?w)) (?w\<lparr>next_free := Suc (next_free ?w)\<rparr>))
          \<lparr>s_construct_stack_size := s_construct_stack_size ?w + 1,
           s_classes_under_construction := s_classes_under_construction ?w @ [(U, next_free ?w)],
           trace := trace ?w @ [Pushed (U, next_free ?w)]\<rparr>"
  let ?wb = "set_initialized U True
             ((set_raw_pointer U (Some (next_free ?w)) w3)
                \<lparr>trace := trace w3 @ [Constructed (next_free ?w)]\<rparr>)"
  assume ct: "ctor (C U) (next_free ?w) ?wa = Ok () w3" and p: "pop C ?wb = Ok () w2"
  from ne have "stays_empty T w ?wa" by (simp add: stays_empty_helpers)
  moreover from C ct have "stays_empty T ?wa w3" unfolding table_resp_def resp_def by blast
  moreover from ne have "stays_empty T w3 ?wb" by (simp add: stays_empty_helpers)
  moreover from C p have "stays_empty T ?wb w2" by (rule pop_stays_empty)
  moreover from ne have "stays_empty T w2 (unlock U w2)"
    by (simp add: stays_empty_helpers unlock_def)
  ultimately show ?thesis by (blast intro: stays_empty_trans)
qed

lemma destructInstance_stays_empty:
  assumes C: "table_resp (stays_empty T) C"
  shows "resp (stays_empty T) (destructInstance C U)"
  unfolding resp_def
proof (intro allI impI)
  fix w x w'
  assume "destructInstance C U w = Ok x w'"
  then show "stays_empty T w w'"
  proof (rule destructInstance_OkE)
    fix p w1
    assume d: "dtor (C U) p w = Ok () w1" and s: "Singleton_dtor U w1 = Ok () w'"
    from C d have "stays_empty T w w1" unfolding table_resp_def resp_def by blast
    moreover from s have "stays_empty T w1 w'"
      by (simp add: Singleton_dtor_Ok stays_empty_def occupied_def unlock_def)
    ultimately show ?thesis by (rule stays_empty_trans)
  qed
qed

lemma step_stays_empty:
  assumes C: "table_resp (stays_empty T) C" and c: "\<not> creates T c"
  shows "resp (stays_empty T) (step C c)"
proof (cases c)
  case (CreateInstance U)
  with c have "U \<noteq> T" by simp
  then have "resp (stays_empty T) (createInstance C U)"
    by (intro createInstance_respI construct_stays_empty[OF C])
  with CreateInstance show ?thesis by (auto simp: resp_def step_def seq_Ok)
next
  case (InstanceCall U)
  with c have "U \<noteq> T" by simp
  then have "resp (stays_empty T) (Instance C U)"
    by (intro Instance_respI stays_empty_refl construct_stays_empty[OF C])
  with InstanceCall show ?thesis by (auto simp: resp_def step_def seq_Ok)
next
  case (InstanceArrow U)
  with c have "U \<noteq> T" by simp
  then have "resp (stays_empty T) (Instance C U)"
    by (intro Instance_respI stays_empty_refl construct_stays_empty[OF C])
  with InstanceArrow show ?thesis by (auto simp: resp_def step_def seq_Ok arrow_Ok)
next
  case (GetInstance U)
  then show ?thesis
    by (auto simp: resp_def step_def seq_Ok getInstance_Ok stays_empty_refl)
next
  case (GetInstanceDuringBuilding U)
  then show ?thesis
    by (auto simp: resp_def step_def seq_Ok getInstanceDuringBuilding_Ok stays_empty_refl)
next
  case (DestructInstance U)
  with destructInstance_stays_empty[OF C, of U] show ?thesis by (auto simp: resp_def step_def)
qed

lemma table_stays_empty:
  assumes P: "never_creates T P"
  shows "table_resp (stays_empty T) (table P n)"
proof (induction n)
  case 0
  show ?case by (simp add: table_resp_def resp_def)
next
  case (Suc n)
  have "resp (stays_empty T) (exec_list (step (table P n)) cs)"
    if "\<forall>c \<in> set cs. \<not> creates T c" for cs
  proof (rule resp_exec_list_on[where R = "stays_empty T"])
    show "stays_empty T w w" for w by (rule stays_empty_refl)
    show "stays_empty T a c" if "stays_empty T a b" "stays_empty T b c" for a b c
      using that by (rule stays_empty_trans)
    show "resp (stays_empty T) (step (table P n) c)" if "c \<in> set cs" for c
      using that \<open>\<forall>c \<in> set cs. \<not> creates T c\<close> by (intro step_stays_empty[OF Suc]) blast
  qed
  note body = this
  from P have "\<forall>c \<in> set (ctor_body (P U)). \<not> creates T c"
    "\<forall>c \<in> set (hook_body (P U)). \<not> creates T c"
    "\<forall>c \<in> set (dtor_body (P U)). \<not> creates T c" for U
    unfolding never_creates_def by blast+
  then show ?case by (simp add: table_resp_def body)
qed

lemma exec_stays_empty:
  assumes P: "never_creates T P" and cs: "\<forall>c \<in> set cs. \<not> creates T c"
    and e: "\<not> occupied T w" and r: "exec P n cs w = Ok x w'"
  shows "\<not> occupied T w'"
proof -
  have "resp (stays_empty T) (exec_list (step (table P n)) cs)"
  proof (rule resp_exec_list_on[where R = "stays_empty T"])
    show "stays_empty T w w" for w by (rule stays_empty_refl)
    show "stays_empty T a c" if "stays_empty T a b" "stays_empty T b c" for a b c
      using that by (rule stays_empty_trans)
    show "resp (stays_empty T) (step (table P n) c)" if "c \<in> set cs" for c
      using that cs by (intro step_stays_empty[OF table_stays_empty[OF P]]) blast
  qed
  with e r show ?thesis unfolding resp_def stays_empty_def exec_def by blast
qed

subsection \<open>The loop over the queue, hook by hook\<close>

lemma call_hooks_drained:
  "call_hooks C Q w = Ok () w' \<longleftrightarrow> drained C Q w w'"
proof (induction Q arbitrary: w)
  case Nil
  show ?case
  proof
    assume "call_hooks C [] w = Ok () w'"
    then have "length [w] = Suc (length ([] :: (tid \<times> addr) list)) \<and> [w] ! 0 = w \<and> [w] ! 0 = w'"
      by simp
    then show "drained C [] w w'" unfolding drained_def by (intro exI[of _ "[w]"]) simp
  next
    assume "drained C [] w w'"
    then show "call_hooks C [] w = Ok () w'" by (auto simp: drained_def)
  qed
next
  case (Cons q Q)
  show ?case
  proof
    assume "call_hooks C (q # Q) w = Ok () w'"
    then obtain w1 where h: "hook_run C q w w1" and r: "call_hooks C Q w1 = Ok () w'"
      by (auto simp: seq_Ok hook_run_def)
    from r Cons.IH obtain ws where ws: "length ws = Suc (length Q)" "ws ! 0 = w1"
      "ws ! length Q = w'" "\<forall>i<length Q. hook_run C (Q ! i) (ws ! i) (ws ! Suc i)"
      unfolding drained_def by blast
    have "\<forall>i<length (q # Q). hook_run C ((q # Q) ! i) ((w # ws) ! i) ((w # ws) ! Suc i)"
    proof (intro allI impI)
      fix i assume "i < length (q # Q)"
      then show "hook_run C ((q # Q) ! i) ((w # ws) ! i) ((w # ws) ! Suc i)"
        using h ws(2,4) by (cases i) simp_all
    qed
    with ws(1,3) show "drained C (q # Q) w w'"
      unfolding drained_def by (intro exI[of _ "w # ws"]) simp
  next
    assume "drained C (q # Q) w w'"
    then obtain ws where ws: "length ws = Suc (length (q # Q))" "ws ! 0 = w"
      "ws ! length (q # Q) = w'"
      "\<forall>i<length (q # Q). hook_run C ((q # Q) ! i) (ws ! i) (ws ! Suc i)"
      unfolding drained_def by blast
    from ws(1) obtain v vs where vs: "ws = v # vs" by (cases ws) simp_all
    with ws(2) have v: "v = w" by simp
    from ws(4) vs v have h: "hook_run C q w (vs ! 0)" by force
    have "\<forall>i<length Q. hook_run C (Q ! i) (vs ! i) (vs ! Suc i)"
    proof (intro allI impI)
      fix i assume "i < length Q"
      then have "Suc i < length (q # Q)" by simp
      with ws(4) have "hook_run C ((q # Q) ! Suc i) (ws ! Suc i) (ws ! Suc (Suc i))" by blast
      with vs show "hook_run C (Q ! i) (vs ! i) (vs ! Suc i)" by simp
    qed
    with ws(1,3) vs have "drained C Q (vs ! 0) w'"
      unfolding drained_def by (intro exI[of _ vs]) simp
    with Cons.IH have "call_hooks C Q (vs ! 0) = Ok () w'" by simp
    with h show "call_hooks C (q # Q) w = Ok () w'" by (simp add: hook_run_def seq_def)
  qed
qed

lemma pop_drains:
  assumes "s_construct_stack_size v = 1"
  shows "pop C v = Ok () v' \<longleftrightarrow>
         (\<exists>u. drained C (s_classes_under_construction v) (v\<lparr>s_construct_stack_size := 0\<rparr>) u \<and>
              v' = u\<lparr>s_classes_under_construction := []\<rparr>)"
  using assms by (auto simp: pop_def Let_def seq_Ok call_hooks_drained[symmetric])

subsection \<open>Running the examples\<close>

lemmas run_defs = createInstance_def Instance_def construct_def destructInstance_def
  Singleton_dtor_def getInstance_def getInstanceDuringBuilding_def lock_def unlock_def
  set_mutex_def malloc_def push_def pop_def seq_def step_def set_raw_pointer_def
  set_initialized_def world0_def InstanceSafetyHelper_ctor_def INT_MAX_def prog_AB_def
  numeral_2_eq_2

text \<open>
  What \<open>createInstance\<close> leaves in the helper when it returns, whatever the
  constructors and hooks of the program did: the mutex was held from before the
  constructor to after the hooks.
\<close>

lemma createInstance_table_helper:
  assumes c: "createInstance (table P n) T w = Ok r w'"
  shows "helpers w' T = \<lparr>wrapper = \<lparr>initialized = True, raw_pointer = Some (next_free w)\<rparr>, mutex = False\<rparr>
         \<and> r = \<lparr>initialized = True, raw_pointer = Some (next_free w)\<rparr>"
  using c
proof (rule createInstance_OkE)
  fix w2
  let ?C = "table P n"
  let ?w = "set_mutex T True w"
  assume c2: "construct ?C T ?w = Ok () w2" and w': "w' = unlock T w2"
    and r: "r = wrapper (helpers w' T)"
  from c2 have "helpers w2 T = \<lparr>wrapper = \<lparr>initialized = True, raw_pointer = Some (next_free w)\<rparr>, mutex = True\<rparr>"
  proof (rule construct_OkE)
    fix w3
    let ?wa = "(set_raw_pointer T (Some (next_free ?w)) (?w\<lparr>next_free := Suc (next_free ?w)\<rparr>))
          \<lparr>s_construct_stack_size := s_construct_stack_size ?w + 1,
           s_classes_under_construction := s_classes_under_construction ?w @ [(T, next_free ?w)],
           trace := trace ?w @ [Pushed (T, next_free ?w)]\<rparr>"
    let ?wb = "set_initialized T True
             ((set_raw_pointer T (Some (next_free ?w)) w3)
                \<lparr>trace := trace w3 @ [Constructed (next_free ?w)]\<rparr>)"
    assume ct: "ctor (?C T) (next_free ?w) ?wa = Ok () w3" and p: "pop ?C ?wb = Ok () w2"
    from table_frozen[of T P n] ct have "frozen T ?wa w3"
      unfolding table_resp_def resp_def by blast
    then have "mutex (helpers w3 T)" by (simp add: frozen_def occupied_def)
    then have b: "helpers ?wb T = \<lparr>wrapper = \<lparr>initialized = True, raw_pointer = Some (next_free w)\<rparr>, mutex = True\<rparr>"
      by simp
    from pop_frozen[OF table_frozen p] b show ?thesis by (simp add: frozen_def occupied_def)
  qed
  with w' r show ?thesis by (simp add: unlock_def)
qed

lemma Instance_table_helper:
  assumes e: "raw_pointer (wrapper (helpers w T)) = None"
    and c: "Instance (table P n) T w = Ok r w'"
  shows "helpers w' T = \<lparr>wrapper = \<lparr>initialized = True, raw_pointer = Some (next_free w)\<rparr>, mutex = False\<rparr>
         \<and> r = \<lparr>initialized = True, raw_pointer = Some (next_free w)\<rparr>"
  using c
proof (cases rule: Instance_OkE)
  case present
  with e show ?thesis by simp
next
  case (absent w2)
  let ?C = "table P n"
  let ?w = "set_mutex T True w"
  from absent(3) have "helpers w2 T = \<lparr>wrapper = \<lparr>initialized = True, raw_pointer = Some (next_free w)\<rparr>, mutex = True\<rparr>"
  proof (rule construct_OkE)
    fix w3
    let ?wa = "(set_raw_pointer T (Some (next_free ?w)) (?w\<lparr>next_free := Suc (next_free ?w)\<rparr>))
          \<lparr>s_construct_stack_size := s_construct_stack_size ?w + 1,
           s_classes_under_construction := s_classes_under_construction ?w @ [(T, next_free ?w)],
           trace := trace ?w @ [Pushed (T, next_free ?w)]\<rparr>"
    let ?wb = "set_initialized T True
             ((set_raw_pointer T (Some (next_free ?w)) w3)
                \<lparr>trace := trace w3 @ [Constructed (next_free ?w)]\<rparr>)"
    assume ct: "ctor (?C T) (next_free ?w) ?wa = Ok () w3" and p: "pop ?C ?wb = Ok () w2"
    from table_frozen[of T P n] ct have "frozen T ?wa w3"
      unfolding table_resp_def resp_def by blast
    then have "mutex (helpers w3 T)" by (simp add: frozen_def occupied_def)
    then have b: "helpers ?wb T = \<lparr>wrapper = \<lparr>initialized = True, raw_pointer = Some (next_free w)\<rparr>, mutex = True\<rparr>"
      by simp
    from pop_frozen[OF table_frozen p] b show ?thesis by (simp add: frozen_def occupied_def)
  qed
  with absent(4,5) show ?thesis by (simp add: unlock_def)
qed

lemma run_lazy:
  "\<exists>r w1. Instance (table prog_AB 1) 2 world0 = Ok r w1"
  by (simp add: run_defs)

lemma run_elsewhere:
  "\<exists>w1. exec prog_AB 2 [CreateInstance 0, GetInstance 1, DestructInstance 1] world0 = Ok () w1"
  by (simp add: run_defs exec_def)

lemma never_creates_prog_AB: "never_creates 2 prog_AB"
  by (simp add: never_creates_def prog_AB_def)

lemma pop_aborting_example:
  "\<exists>v e a. push (0, 5) world0 = Ok () v \<and> pop (table prog_AB 2) v = Abort e a"
  by (simp add: run_defs)

lemma run_AB:
  "\<exists>r w1. createInstance (table prog_AB 2) 0 world0 = Ok r w1"
  by (simp add: run_defs)

lemma run_AB_destruct:
  "\<exists>r w1 w2. createInstance (table prog_AB 2) 0 world0 = Ok r w1 \<and>
     destructInstance (table prog_AB 2) 0 w1 = Ok () w2"
  by (simp add: run_defs)

lemma run_AB_Instance:
  "\<exists>r w1. Instance (table prog_AB 2) 0 world0 = Ok r w1"
  by (simp add: run_defs)

lemma holder_inv_world0: "holder_inv world0"
  by (simp add: holder_inv_def world0_def InstanceSafetyHelper_ctor_def)

lemmas coord_defs = run_defs coord_step_def

lemma coord_inv_world0: "coord_inv world0"
  by (simp add: coord_inv_def world0_def)

lemma run_ops_example:
  "\<exists>w'. run_ops (table prog_AB 1) [Push (2, 5), Push (2, 6), Pop, Pop] world0 = Ok () w'"
  by (simp add: coord_defs)

lemma pop_example:
  "\<exists>v v'. push (2, 5) world0 = Ok () v \<and> pop (table prog_AB 1) v = Ok () v'"
  by (simp add: coord_defs)

lemma exec_example: "\<exists>w'. exec prog_AB 2 [CreateInstance 0, GetInstance 1] world0 = Ok () w'"
  by (simp add: coord_defs exec_def)

lemma hooks_only_look_up_prog_AB: "hooks_only_look_up prog_AB"
  by (simp add: hooks_only_look_up_def prog_AB_def)

subsection \<open>The registry\<close>

lemma Instance_Collector_absent:
  assumes "C K = Collector_class" "\<not> occupied K w" "\<not> mutex (helpers w K)"
    "s_construct_stack_size w = 0" "s_classes_under_construction w = []"
  shows "\<exists>w1. Instance C K w = Ok \<lparr>initialized = True, raw_pointer = Some (next_free w)\<rparr> w1 \<and>
           wrapper (helpers w1 K) = \<lparr>initialized = True, raw_pointer = Some (next_free w)\<rparr> \<and>
           m_container w1 (next_free w) = {||}"
  using assms
  by (simp add: Instance_def construct_def lock_def unlock_def malloc_def push_def pop_def seq_def
        Collector_class_def SingletonBase_postConstruction_def occupied_def INT_MAX_def)

lemma AutoCollectable_ctor_registers:
  assumes J: "registry_inv C K objs w" and a: "a \<notin> dom objs"
  shows "\<exists>obj w'. AutoCollectable_ctor C K a w = Ok obj w' \<and> registry_inv C K (objs(a \<mapsto> obj)) w'"
proof (cases "occupied K w")
  case True
  then obtain p where p: "raw_pointer (wrapper (helpers w K)) = Some p"
    by (auto simp: occupied_def)
  with J True have i: "initialized (wrapper (helpers w K))" and m: "fset (m_container w p) = dom objs"
    by (simp_all add: registry_inv_def members_def)
  from m a have n: "a |\<notin>| m_container w p" by auto
  let ?w' = "w\<lparr>m_container := (m_container w)(p := finsert a (m_container w p))\<rparr>"
  from p i n have "AutoCollectable_ctor C K a w = Ok \<lparr>m_registered_in_collector = True\<rparr> ?w'"
    by (simp add: AutoCollectable_ctor_def Instance_def arrow_def Collector_insert_def seq_def)
  moreover from J True p m have "registry_inv C K (objs(a \<mapsto> \<lparr>m_registered_in_collector = True\<rparr>)) ?w'"
    by (auto simp: registry_inv_def members_def occupied_def)
  ultimately show ?thesis by blast
next
  case False
  with J have e: "dom objs = {}" by (simp add: registry_inv_def members_def occupied_def)
  from J False have "C K = Collector_class" "\<not> mutex (helpers w K)"
    "s_construct_stack_size w = 0" "s_classes_under_construction w = []"
    by (simp_all add: registry_inv_def)
  from Instance_Collector_absent[of C K w, OF this(1) False this(2,3,4)] obtain w1 where
    w1: "Instance C K w = Ok \<lparr>initialized = True, raw_pointer = Some (next_free w)\<rparr> w1"
      "wrapper (helpers w1 K) = \<lparr>initialized = True, raw_pointer = Some (next_free w)\<rparr>"
      "m_container w1 (next_free w) = {||}"
    by blast
  let ?p = "next_free w"
  let ?w' = "w1\<lparr>m_container := (m_container w1)(?p := finsert a (m_container w1 ?p))\<rparr>"
  from w1 have "AutoCollectable_ctor C K a w = Ok \<lparr>m_registered_in_collector = True\<rparr> ?w'"
    by (simp add: AutoCollectable_ctor_def arrow_def Collector_insert_def seq_def)
  moreover from J w1 e have "registry_inv C K (objs(a \<mapsto> \<lparr>m_registered_in_collector = True\<rparr>)) ?w'"
    by (auto simp: registry_inv_def members_def occupied_def)
  ultimately show ?thesis by blast
qed

lemma AutoCollectable_dtor_deregisters:
  assumes J: "registry_inv C K objs w" and a: "objs a = Some obj"
  shows "\<exists>obj' w'. AutoCollectable_dtor C K a obj w = Ok obj' w' \<and>
           registry_inv C K (objs(a := None)) w'"
proof -
  from J a have r: "m_registered_in_collector obj" by (auto simp: registry_inv_def)
  from J a have "a \<in> fset (members K w)" by (auto simp: registry_inv_def)
  then obtain p where p: "raw_pointer (wrapper (helpers w K)) = Some p" and m: "a |\<in>| m_container w p"
    by (auto simp: members_def split: option.splits)
  with J have i: "initialized (wrapper (helpers w K))" by (simp add: registry_inv_def occupied_def)
  let ?w' = "w\<lparr>m_container := (m_container w)(p := m_container w p |-| {|a|})\<rparr>"
  from r p m i have "AutoCollectable_dtor C K a obj w = Ok (obj\<lparr>m_registered_in_collector := True\<rparr>) ?w'"
    by (simp add: AutoCollectable_dtor_def Instance_def arrow_def Collector_erase_def seq_def)
  moreover from J p have "registry_inv C K (objs(a := None)) ?w'"
    by (auto simp: registry_inv_def members_def occupied_def)
  ultimately show ?thesis by blast
qed

lemma run_life_registry:
  "registry_inv C K objs w \<Longrightarrow> wf_life evs (dom objs) \<Longrightarrow>
     \<exists>objs' w'. run_life C K evs objs w = Ok objs' w' \<and> registry_inv C K objs' w' \<and>
       dom objs' = alive_after evs (dom objs)"
proof (induction evs arbitrary: objs w)
  case Nil
  then show ?case by simp
next
  case (Cons ev evs)
  show ?case
  proof (cases ev)
    case (New a)
    with Cons.prems have a: "a \<notin> dom objs" and wf: "wf_life evs (insert a (dom objs))" by simp_all
    from AutoCollectable_ctor_registers[OF Cons.prems(1) a] obtain obj w1 where
      c: "AutoCollectable_ctor C K a w = Ok obj w1" and J: "registry_inv C K (objs(a \<mapsto> obj)) w1"
      by blast
    from wf have "wf_life evs (dom (objs(a \<mapsto> obj)))" by simp
    from Cons.IH[OF J this] obtain objs' w' where
      "run_life C K evs (objs(a \<mapsto> obj)) w1 = Ok objs' w'" "registry_inv C K objs' w'"
      "dom objs' = alive_after evs (dom (objs(a \<mapsto> obj)))"
      by blast
    moreover have "run_life C K (ev # evs) objs w = run_life C K evs (objs(a \<mapsto> obj)) w1"
      using New c by (simp add: life_step_def seq_def)
    moreover have "alive_after (ev # evs) (dom objs) = alive_after evs (dom (objs(a \<mapsto> obj)))"
      using New by simp
    ultimately show ?thesis by metis
  next
    case (Delete a)
    with Cons.prems have a: "a \<in> dom objs" and wf: "wf_life evs (dom objs - {a})" by simp_all
    then obtain obj where o: "objs a = Some obj" by blast
    from AutoCollectable_dtor_deregisters[OF Cons.prems(1) o] obtain obj' w1 where
      c: "AutoCollectable_dtor C K a obj w = Ok obj' w1" and J: "registry_inv C K (objs(a := None)) w1"
      by blast
    from wf have "wf_life evs (dom (objs(a := None)))" by simp
    from Cons.IH[OF J this] obtain objs' w' where
      "run_life C K evs (objs(a := None)) w1 = Ok objs' w'" "registry_inv C K objs' w'"
      "dom objs' = alive_after evs (dom (objs(a := None)))"
      by blast
    moreover have "run_life C K (ev # evs) objs w = run_life C K evs (objs(a := None)) w1"
      using Delete c o by (simp add: life_step_def seq_def)
    moreover have "alive_after (ev # evs) (dom objs) = alive_after evs (dom (objs(a := None)))"
      using Delete by simp
    ultimately show ?thesis by metis
  qed
qed

lemma wf_life_News: "wf_life (map New as) A \<longleftrightarrow> distinct as \<and> set as \<inter> A = {}"
  by (induction as arbitrary: A) auto

lemma alive_after_News: "alive_after (map New as) A = A \<union> set as"
  by (induction as arbitrary: A) auto

lemma wf_life_Deletes: "wf_life (map Delete bs) A \<longleftrightarrow> distinct bs \<and> set bs \<subseteq> A"
  by (induction bs arbitrary: A) auto

lemma alive_after_Deletes: "alive_after (map Delete bs) A = A - set bs"
  by (induction bs arbitrary: A) auto

lemma wf_life_append: "wf_life (xs @ ys) A \<longleftrightarrow> wf_life xs A \<and> wf_life ys (alive_after xs A)"
  by (induction xs A rule: wf_life.induct) auto

lemma alive_after_append: "alive_after (xs @ ys) A = alive_after ys (alive_after xs A)"
  by (induction xs A rule: alive_after.induct) auto

lemma registry_inv_fresh:
  assumes "C K = Collector_class" "helpers w K = InstanceSafetyHelper_ctor"
    "s_construct_stack_size w = 0" "s_classes_under_construction w = []"
  shows "registry_inv C K Map.empty w"
  using assms by (simp add: registry_inv_def members_def occupied_def InstanceSafetyHelper_ctor_def)

lemma run_life_fresh:
  assumes "C K = Collector_class" "helpers w K = InstanceSafetyHelper_ctor"
    "s_construct_stack_size w = 0" "s_classes_under_construction w = []"
    and wf: "wf_life evs {}"
  shows "\<exists>objs w'. run_life C K evs Map.empty w = Ok objs w' \<and>
           fset (members K w') = alive_after evs {} \<and> dom objs = alive_after evs {}"
proof -
  from wf have "wf_life evs (dom (Map.empty :: addr \<rightharpoonup> AutoCollectable))" by simp
  from run_life_registry[OF registry_inv_fresh[of C K w, OF assms(1-4)] this]
  show ?thesis by (auto simp: registry_inv_def)
qed

section \<open>The claims\<close>

text \<open>
  Claim C1, as stated: when the depth returns to zero the queued hooks run in the order
  in which the constructors completed, the outermost caller's hook last. In the example
  the constructor of \<open>B\<close> (address 1) completes before the constructor of \<open>A\<close>
  (address 0), which is the outermost caller, and the hook of \<open>A\<close> runs first.
\<close>

theorem hooks_completion_order_counterexample:
  "completion_order (createInstance (table prog_AB 2) 0 world0) = Some [1, 0] \<and>
   hook_order (createInstance (table prog_AB 2) 0 world0) = Some [0, 1]"
  by (simp add: completion_order_def hook_order_def result_trace_def run_defs)

text \<open>
  Claim C1, amended: a \<open>createInstance\<close> that was entered at depth zero with an empty
  queue and returns has gone through two phases. In the first the objects were pushed,
  the outermost caller's first, the constructors completed, the outermost caller's
  last, and no hook was called. In the second, with the depth back at zero, the hook of
  every object pushed was called, in the order of the pushes, which is the order in
  which the constructions began: the outermost caller's hook is called first. Here
  \<open>ss\<close> holds what each hook left in the trace; when the hooks only look singletons
  up that is nothing, and the second phase is the calls of the hooks alone. The depth
  is zero again and the queue is empty.
\<close>

theorem hooks_run_in_push_order:
  assumes d: "s_construct_stack_size w = 0" and q: "s_classes_under_construction w = []"
    and c: "createInstance (table P n) T w = Ok r w'"
  shows "\<exists>t ps cs ss.
           trace w' = trace w @ t @ drain_trace ((T, next_free w) # ps) ss \<and>
           pushed_of t = (T, next_free w) # ps \<and> hooks_of t = [] \<and>
           constructed_of t = cs @ [next_free w] \<and>
           length ss = Suc (length ps) \<and>
           (hooks_only_look_up P \<longrightarrow>
              drain_trace ((T, next_free w) # ps) ss = map HookCalled ((T, next_free w) # ps)) \<and>
           s_construct_stack_size w' = 0 \<and> s_classes_under_construction w' = []"
  using c
proof (rule createInstance_OkE)
  fix w2
  let ?C = "table P n"
  let ?w = "set_mutex T True w"
  let ?a = "next_free w"
  assume c2: "construct ?C T ?w = Ok () w2" and w': "w' = unlock T w2"
  from c2 show ?thesis
  proof (rule construct_OkE)
    fix w3
    let ?wb = "set_initialized T True
             ((set_raw_pointer T (Some (next_free ?w)) w3)
                \<lparr>trace := trace w3 @ [Constructed (next_free ?w)]\<rparr>)"
    assume ct: "ctor (?C T) (next_free ?w)
       ((set_raw_pointer T (Some (next_free ?w)) (?w\<lparr>next_free := Suc (next_free ?w)\<rparr>))
          \<lparr>s_construct_stack_size := s_construct_stack_size ?w + 1,
           s_classes_under_construction := s_classes_under_construction ?w @ [(T, next_free ?w)],
           trace := trace ?w @ [Pushed (T, next_free ?w)]\<rparr>) = Ok () w3"
      and p: "pop ?C ?wb = Ok () w2"
    from d have "0 \<le> s_construct_stack_size ?w" by simp
    from construct_ctor_nested[OF table_nested this ct] d q obtain t where
      t: "s_construct_stack_size w3 = 1"
        "trace w3 = trace w @ Pushed (T, ?a) # t" "hooks_of t = []"
        "s_classes_under_construction w3 = (T, ?a) # pushed_of t"
      by auto
    let ?t = "Pushed (T, ?a) # t @ [Constructed ?a]"
    let ?Q = "(T, ?a) # pushed_of t"
    have phase: "pushed_of ?t = ?Q" "hooks_of ?t = []" "constructed_of ?t = constructed_of t @ [?a]"
      using t(3) by (simp_all add: pushed_of_append hooks_of_append constructed_of_append)
    from p show ?thesis
    proof (cases rule: pop_OkE)
      case (drain w4)
      have "\<exists>ss. length ss = length ?Q \<and> trace w4 = trace w @ ?t @ drain_trace ?Q ss \<and>
              (hooks_only_look_up P \<longrightarrow> drain_trace ?Q ss = map HookCalled ?Q)"
      proof (cases "hooks_only_look_up P")
        case True
        from call_hooks_look_up[OF True drain(2)] t
        have "trace w4 = trace w @ ?t @ drain_trace ?Q (replicate (length ?Q) [])"
          by (simp only: drain_trace_Nils) simp
        moreover have "drain_trace ?Q (replicate (length ?Q) []) = map HookCalled ?Q"
          by (rule drain_trace_Nils)
        ultimately show ?thesis by (metis length_replicate)
      next
        case False
        from call_hooks_trace[OF table_trace_grows drain(2)] t False show ?thesis by auto
      qed
      then obtain ss where ss: "length ss = length ?Q"
        "trace w4 = trace w @ ?t @ drain_trace ?Q ss"
        "hooks_only_look_up P \<longrightarrow> drain_trace ?Q ss = map HookCalled ?Q"
        by blast
      from call_hooks_same_depth[OF table_same_depth drain(2)] drain(3) w' ss(2)
      have "trace w' = trace w @ ?t @ drain_trace ?Q ss"
        "s_construct_stack_size w' = 0" "s_classes_under_construction w' = []"
        by (simp_all add: unlock_def)
      with phase ss(1,3) show ?thesis by (intro exI[of _ ?t] exI[of _ "pushed_of t"]
            exI[of _ "constructed_of t"] exI[of _ ss]) simp
    next
      case inner
      with t(1) show ?thesis by simp
    qed
  qed
qed

theorem hooks_run_in_push_order_witness:
  "s_construct_stack_size world0 = 0 \<and> s_classes_under_construction world0 = [] \<and>
   hooks_only_look_up prog_AB \<and>
   (\<exists>r w'. createInstance (table prog_AB 2) 0 world0 = Ok r w' \<and>
      (\<exists>t ps cs. trace w' = t @ map HookCalled ((0, 0) # ps) \<and>
         pushed_of t = (0, 0) # ps \<and> hooks_of t = [] \<and> constructed_of t = cs @ [0] \<and>
         s_construct_stack_size w' = 0 \<and> s_classes_under_construction w' = []))"
proof -
  have d: "s_construct_stack_size world0 = 0" and q: "s_classes_under_construction world0 = []"
    and e: "trace world0 = []" "next_free world0 = 0"
    by (simp_all add: world0_def)
  obtain r w' where c: "createInstance (table prog_AB 2) 0 world0 = Ok r w'"
    using run_AB by blast
  from hooks_run_in_push_order[OF d q c, unfolded e] hooks_only_look_up_prog_AB
  obtain t ps cs ss where x: "trace w' = [] @ t @ drain_trace ((0, 0) # ps) ss"
    "pushed_of t = (0, 0) # ps" "hooks_of t = []" "constructed_of t = cs @ [0]"
    "drain_trace ((0, 0) # ps) ss = map HookCalled ((0, 0) # ps)"
    "s_construct_stack_size w' = 0" "s_classes_under_construction w' = []"
    by blast
  from x(1,5) have "trace w' = t @ map HookCalled ((0, 0) # ps)" by simp
  with x have "\<exists>t ps cs. trace w' = t @ map HookCalled ((0, 0) # ps) \<and>
         pushed_of t = (0, 0) # ps \<and> hooks_of t = [] \<and> constructed_of t = cs @ [0] \<and>
         s_construct_stack_size w' = 0 \<and> s_classes_under_construction w' = []"
    by blast
  with hooks_only_look_up_prog_AB d q c show ?thesis by blast
qed

text \<open>
  Claim C2, as stated: \<open>getInstance\<close> called before any \<open>createInstance\<close> fails its
  assertion. In the example no \<open>createInstance\<close> is ever called: the lazy \<open>Instance\<close>
  of class 2 constructs the instance, as the constructor of \<open>AutoCollectable\<close> does for
  its collector, and \<open>getInstance\<close> then returns its address.
\<close>

theorem getInstance_before_createInstance_counterexample:
  "returned (then_getInstance 2 (Instance (table prog_AB 1) 2 world0)) = Some 0 \<and>
   returned (exec prog_AB 1 [InstanceCall 2, GetInstance 2] world0) = Some ()"
  by (simp add: returned_def then_getInstance_def exec_def run_defs)

text \<open>
  Claim C2, amended: \<open>getInstance\<close> fails its assertion while the slot of \<open>T\<close> is
  empty, and a slot that is empty stays empty through every run of user code that
  makes no instance of \<open>T\<close>, neither by \<open>createInstance\<close> nor by the lazy \<open>Instance\<close>,
  whatever else it creates and destroys. Once \<open>createInstance\<close> has returned, or
  \<open>Instance\<close> on an empty slot has, \<open>getInstance\<close> returns the pointer that call
  returned and changes nothing, so every further call returns it again; once
  \<open>destructInstance\<close> has returned, \<open>getInstance\<close> fails its assertion. This holds for
  every program and every bound on nesting, and a \<open>createInstance\<close> that returned
  within one bound returns the same within every larger one.
\<close>

theorem getInstance_lifecycle:
  "(\<not> occupied T w \<longrightarrow> getInstance T w = Abort AssertionFailed w) \<and>
   (\<not> occupied T w \<and> never_creates T P \<and> (\<forall>c \<in> set cs. \<not> creates T c) \<and>
      exec P n cs w = Ok () w0 \<longrightarrow> getInstance T w0 = Abort AssertionFailed w0) \<and>
   (createInstance (table P n) T w = Ok r w1 \<longrightarrow>
      raw_pointer r = Some (next_free w) \<and> getInstance T w1 = Ok (next_free w) w1 \<and>
      createInstance (table P (n + k)) T w = Ok r w1) \<and>
   (\<not> occupied T w \<and> Instance (table P n) T w = Ok r' w3 \<longrightarrow>
      raw_pointer r' = Some (next_free w) \<and> getInstance T w3 = Ok (next_free w) w3) \<and>
   (destructInstance (table P n) T v = Ok () w2 \<longrightarrow> getInstance T w2 = Abort AssertionFailed w2)"
proof (intro conjI impI)
  assume "\<not> occupied T w"
  then show "getInstance T w = Abort AssertionFailed w"
    by (simp add: occupied_def getInstance_def)
next
  assume a: "\<not> occupied T w \<and> never_creates T P \<and> (\<forall>c \<in> set cs. \<not> creates T c) \<and>
      exec P n cs w = Ok () w0"
  then have "\<not> occupied T w0" using exec_stays_empty[of T P cs w n "()" w0] by blast
  then show "getInstance T w0 = Abort AssertionFailed w0"
    by (simp add: occupied_def getInstance_def)
next
  assume c: "createInstance (table P n) T w = Ok r w1"
  from createInstance_table_helper[OF c] show "raw_pointer r = Some (next_free w)" by simp
  from createInstance_table_helper[OF c] show "getInstance T w1 = Ok (next_free w) w1"
    by (simp add: getInstance_def)
  from createInstance_more_fuel[of P n T w k] c
  show "createInstance (table P (n + k)) T w = Ok r w1" by simp
next
  assume "\<not> occupied T w \<and> Instance (table P n) T w = Ok r' w3"
  then have e: "raw_pointer (wrapper (helpers w T)) = None"
    and i: "Instance (table P n) T w = Ok r' w3"
    by (simp_all add: occupied_def)
  from Instance_table_helper[OF e i] show "raw_pointer r' = Some (next_free w)" by simp
  from Instance_table_helper[OF e i] show "getInstance T w3 = Ok (next_free w) w3"
    by (simp add: getInstance_def)
next
  assume "destructInstance (table P n) T v = Ok () w2"
  then show "getInstance T w2 = Abort AssertionFailed w2"
    by (rule destructInstance_OkE) (simp add: Singleton_dtor_Ok getInstance_def unlock_def)
qed

theorem getInstance_lifecycle_witness:
  "\<not> occupied 0 world0 \<and> getInstance 0 world0 = Abort AssertionFailed world0 \<and>
   (\<exists>r w1 w2. createInstance (table prog_AB 2) 0 world0 = Ok r w1 \<and>
       destructInstance (table prog_AB 2) 0 w1 = Ok () w2 \<and>
       raw_pointer r = Some 0 \<and> getInstance 0 w1 = Ok 0 w1 \<and>
       createInstance (table prog_AB (2 + 40)) 0 world0 = Ok r w1 \<and>
       getInstance 0 w2 = Abort AssertionFailed w2) \<and>
   \<not> occupied 2 world0 \<and> never_creates 2 prog_AB \<and>
   \<not> creates 2 (CreateInstance 0) \<and> \<not> creates 2 (GetInstance 1) \<and>
   \<not> creates 2 (DestructInstance 1) \<and>
   (\<exists>w0. exec prog_AB 2 [CreateInstance 0, GetInstance 1, DestructInstance 1] world0 = Ok () w0 \<and>
       getInstance 2 w0 = Abort AssertionFailed w0) \<and>
   (\<exists>r w3. Instance (table prog_AB 1) 2 world0 = Ok r w3 \<and>
       raw_pointer r = Some 0 \<and> getInstance 2 w3 = Ok 0 w3)"
proof -
  have a: "\<not> occupied 0 world0" and a2: "\<not> occupied 2 world0"
    by (simp_all add: occupied_def world0_def InstanceSafetyHelper_ctor_def)
  obtain r w1 w2 where c: "createInstance (table prog_AB 2) 0 world0 = Ok r w1"
    and d: "destructInstance (table prog_AB 2) 0 w1 = Ok () w2"
    using run_AB_destruct by blast
  obtain w0 where e: "exec prog_AB 2 [CreateInstance 0, GetInstance 1, DestructInstance 1] world0 = Ok () w0"
    using run_elsewhere by blast
  obtain r' w3 where i: "Instance (table prog_AB 1) 2 world0 = Ok r' w3"
    using run_lazy by blast
  have cs: "\<forall>c \<in> set [CreateInstance 0, GetInstance 1, DestructInstance 1]. \<not> creates 2 c"
    by simp
  have n: "next_free world0 = 0" by (simp add: world0_def)
  from getInstance_lifecycle[where T = 0 and w = world0 and P = prog_AB and n = 2 and r = r
      and ?w1.0 = w1 and v = w1 and ?w2.0 = w2 and k = 40] a c d n
  have p1: "getInstance 0 world0 = Abort AssertionFailed world0"
    "raw_pointer r = Some 0" "getInstance 0 w1 = Ok 0 w1"
    "createInstance (table prog_AB (2 + 40)) 0 world0 = Ok r w1"
    "getInstance 0 w2 = Abort AssertionFailed w2"
    by auto
  from getInstance_lifecycle[where T = 2 and w = world0 and P = prog_AB and n = 2
      and cs = "[CreateInstance 0, GetInstance 1, DestructInstance 1]" and ?w0.0 = w0]
    a2 never_creates_prog_AB cs e
  have p2: "getInstance 2 w0 = Abort AssertionFailed w0" by blast
  from getInstance_lifecycle[where T = 2 and w = world0 and P = prog_AB and n = 1
      and r' = r' and ?w3.0 = w3] a2 i n
  have p3: "raw_pointer r' = Some 0" "getInstance 2 w3 = Ok 0 w3" by auto
  have cs': "\<not> creates 2 (CreateInstance 0)" "\<not> creates 2 (GetInstance 1)"
    "\<not> creates 2 (DestructInstance 1)"
    by simp_all
  from a a2 c d e i cs' never_creates_prog_AB p1 p2 p3 show ?thesis by blast
qed

text \<open>
  Claim C3: \<open>createInstance\<close> on an occupied helper fails its first assertion and
  leaves the state as it was; in particular the second of two calls does, whatever
  the program.
\<close>

theorem createInstance_twice:
  "(occupied T w \<longrightarrow> createInstance C T w = Abort AssertionFailed w) \<and>
   (createInstance (table P n) T w = Ok r w1 \<longrightarrow>
      createInstance (table P m) T w1 = Abort AssertionFailed w1)"
proof (intro conjI impI)
  assume "occupied T w"
  then show "createInstance C T w = Abort AssertionFailed w"
    by (simp add: occupied_def createInstance_def)
next
  assume c: "createInstance (table P n) T w = Ok r w1"
  from createInstance_table_helper[OF c]
  show "createInstance (table P m) T w1 = Abort AssertionFailed w1"
    by (simp add: createInstance_def)
qed

theorem createInstance_twice_witness:
  "\<exists>r w1. createInstance (table prog_AB 2) 0 world0 = Ok r w1 \<and> occupied 0 w1 \<and>
     createInstance (table prog_AB 2) 0 w1 = Abort AssertionFailed w1"
proof -
  obtain r w1 where c: "createInstance (table prog_AB 2) 0 world0 = Ok r w1"
    using run_AB by blast
  from createInstance_table_helper[OF c] have o: "occupied 0 w1" by (simp add: occupied_def)
  from createInstance_twice[where T = 0 and w = w1 and C = "table prog_AB 2"] c o
  show ?thesis by blast
qed

text \<open>
  Claim C4: every sequence of \<open>push\<close> and \<open>pop\<close> that runs from a state in which the
  depth is not negative and the queue is empty at depth zero ends in such a state;
  a \<open>pop\<close> that returns lowers the depth by one and, when it brings the depth to
  zero, leaves the queue empty; a \<open>pop\<close> at depth zero or below fails its assertion.
  The hooks are those of any program, and what holds of sequences of \<open>push\<close> and
  \<open>pop\<close> holds of every sequence of calls of the singleton operations too. The
  \<open>pop\<close> at depth one is the step that drains: for every class table it returns
  exactly when the hooks of the queued objects, called one after another in the order
  of the queue and each in the state the one before left, all return, and it returns
  the state the last hook left, with the queue cleared; for the hooks of a program
  its trace then grows by the calls of the hooks of the queue, in that order, each
  followed by what that hook left there.
\<close>

theorem coordinator_invariant:
  "(coord_inv w \<and> run_ops (table P n) ops w = Ok () w' \<longrightarrow> coord_inv w') \<and>
   (coord_inv w \<and> exec P n cs w = Ok () w'' \<longrightarrow> coord_inv w'') \<and>
   (pop (table P n) v = Ok () v' \<longrightarrow>
      s_construct_stack_size v' = s_construct_stack_size v - 1 \<and>
      (s_construct_stack_size v' = 0 \<longrightarrow> s_classes_under_construction v' = [])) \<and>
   (s_construct_stack_size u \<le> 0 \<longrightarrow> pop C u = Abort AssertionFailed u) \<and>
   (s_construct_stack_size x = 1 \<longrightarrow>
      (pop C x = Ok () x' \<longleftrightarrow>
         (\<exists>y. drained C (s_classes_under_construction x) (x\<lparr>s_construct_stack_size := 0\<rparr>) y \<and>
              x' = y\<lparr>s_classes_under_construction := []\<rparr>))) \<and>
   (s_construct_stack_size x = 1 \<and> pop (table P n) x = Ok () x' \<longrightarrow>
      (\<exists>ss. length ss = length (s_classes_under_construction x) \<and>
            trace x' = trace x @ drain_trace (s_classes_under_construction x) ss))"
proof (intro conjI impI)
  assume "coord_inv w \<and> run_ops (table P n) ops w = Ok () w'"
  then show "coord_inv w'" using run_ops_inv[OF table_same_depth] by blast
next
  assume "coord_inv w \<and> exec P n cs w = Ok () w''"
  then show "coord_inv w''" using exec_keeps_coord_inv by blast
next
  assume p: "pop (table P n) v = Ok () v'"
  from pop_depth[OF table_same_depth p]
  show "s_construct_stack_size v' = s_construct_stack_size v - 1" .
  assume "s_construct_stack_size v' = 0"
  with pop_clears[OF table_same_depth p] show "s_classes_under_construction v' = []" .
next
  assume "s_construct_stack_size u \<le> 0"
  then show "pop C u = Abort AssertionFailed u" by (simp add: pop_def)
next
  assume "s_construct_stack_size x = 1"
  then show "pop C x = Ok () x' \<longleftrightarrow>
         (\<exists>y. drained C (s_classes_under_construction x) (x\<lparr>s_construct_stack_size := 0\<rparr>) y \<and>
              x' = y\<lparr>s_classes_under_construction := []\<rparr>)"
    by (rule pop_drains)
next
  assume a: "s_construct_stack_size x = 1 \<and> pop (table P n) x = Ok () x'"
  then have "pop (table P n) x = Ok () x'" by simp
  then show "\<exists>ss. length ss = length (s_classes_under_construction x) \<and>
            trace x' = trace x @ drain_trace (s_classes_under_construction x) ss"
  proof (cases rule: pop_OkE)
    case (drain w2)
    from call_hooks_trace[OF table_trace_grows drain(2)] drain(3) show ?thesis by simp
  next
    case inner
    with a show ?thesis by simp
  qed
qed

theorem coordinator_invariant_witness:
  "coord_inv world0 \<and>
   (\<exists>w'. run_ops (table prog_AB 1) [Push (2, 5), Push (2, 6), Pop, Pop] world0 = Ok () w' \<and>
      coord_inv w') \<and>
   (\<exists>w'. exec prog_AB 2 [CreateInstance 0, GetInstance 1] world0 = Ok () w' \<and> coord_inv w') \<and>
   (\<exists>v v'. push (2, 5) world0 = Ok () v \<and> s_construct_stack_size v = 1 \<and>
      pop (table prog_AB 1) v = Ok () v' \<and>
      s_construct_stack_size v' = 0 \<and> s_classes_under_construction v' = [] \<and>
      (\<exists>y. drained (table prog_AB 1) (s_classes_under_construction v)
              (v\<lparr>s_construct_stack_size := 0\<rparr>) y \<and>
           v' = y\<lparr>s_classes_under_construction := []\<rparr>) \<and>
      (\<exists>ss. length ss = length (s_classes_under_construction v) \<and>
            trace v' = trace v @ drain_trace (s_classes_under_construction v) ss)) \<and>
   (\<exists>v e a. push (0, 5) world0 = Ok () v \<and> s_construct_stack_size v = 1 \<and>
      pop (table prog_AB 2) v = Abort e a \<and>
      \<not> (\<exists>y. drained (table prog_AB 2) (s_classes_under_construction v)
                (v\<lparr>s_construct_stack_size := 0\<rparr>) y)) \<and>
   s_construct_stack_size world0 \<le> 0 \<and>
   pop (table prog_AB 1) world0 = Abort AssertionFailed world0"
proof -
  obtain w' where r: "run_ops (table prog_AB 1) [Push (2, 5), Push (2, 6), Pop, Pop] world0 = Ok () w'"
    using run_ops_example by blast
  obtain w'' where e: "exec prog_AB 2 [CreateInstance 0, GetInstance 1] world0 = Ok () w''"
    using exec_example by blast
  obtain v v' where u: "push (2, 5) world0 = Ok () v" and p: "pop (table prog_AB 1) v = Ok () v'"
    using pop_example by blast
  obtain v2 e2 a2 where u2: "push (0, 5) world0 = Ok () v2"
    and p2: "pop (table prog_AB 2) v2 = Abort e2 a2"
    using pop_aborting_example by blast
  from u have d: "s_construct_stack_size v = 1" by (auto simp: push_def world0_def split: if_splits)
  from u2 have d2: "s_construct_stack_size v2 = 1"
    by (auto simp: push_def world0_def split: if_splits)
  have z: "s_construct_stack_size world0 \<le> 0" by (simp add: world0_def)
  note t1 = coordinator_invariant[where w = world0 and P = prog_AB and n = 1
      and ops = "[Push (2, 5), Push (2, 6), Pop, Pop]" and w' = w' and v = v and v' = v'
      and u = world0 and C = "table prog_AB 1" and x = v and x' = v']
  note t2 = coordinator_invariant[where w = world0 and P = prog_AB and n = 2
      and cs = "[CreateInstance 0, GetInstance 1]" and w'' = w'']
  have t3: "pop (table prog_AB 2) v2 = Ok () (y\<lparr>s_classes_under_construction := []\<rparr>) \<longleftrightarrow>
      (\<exists>y'. drained (table prog_AB 2) (s_classes_under_construction v2)
               (v2\<lparr>s_construct_stack_size := 0\<rparr>) y' \<and>
            y\<lparr>s_classes_under_construction := []\<rparr> = y'\<lparr>s_classes_under_construction := []\<rparr>)"
    for y
    using coordinator_invariant[where C = "table prog_AB 2" and x = v2
        and x' = "y\<lparr>s_classes_under_construction := []\<rparr>"] d2 by blast
  from t1 coord_inv_world0 r have "coord_inv w'" by blast
  moreover from t2 coord_inv_world0 e have "coord_inv w''" by blast
  moreover from t1 p d have "s_construct_stack_size v' = 0 \<and> s_classes_under_construction v' = []"
    by simp
  moreover from t1 p d
  have "\<exists>y. drained (table prog_AB 1) (s_classes_under_construction v)
              (v\<lparr>s_construct_stack_size := 0\<rparr>) y \<and>
           v' = y\<lparr>s_classes_under_construction := []\<rparr>"
    by blast
  moreover from t1 p d
  have "\<exists>ss. length ss = length (s_classes_under_construction v) \<and>
            trace v' = trace v @ drain_trace (s_classes_under_construction v) ss"
    by blast
  moreover from t3 p2
  have "\<not> (\<exists>y. drained (table prog_AB 2) (s_classes_under_construction v2)
                (v2\<lparr>s_construct_stack_size := 0\<rparr>) y)"
    by auto
  moreover from t1 z have "pop (table prog_AB 1) world0 = Abort AssertionFailed world0" by blast
  ultimately show ?thesis using coord_inv_world0 r e u p d u2 p2 d2 z by blast
qed

text \<open>
  Claim C5: starting where no collector exists yet, every sequence of constructions and
  destructions of collectable objects (each construction at an address that holds no
  object, each destruction of an object alive) returns, and the members of the
  registry are then exactly the addresses alive. So after constructing objects at \<open>N\<close>
  distinct addresses the count is \<open>N\<close>; destroying one object alive lowers the count
  by one and removes that address and no other; and after destroying all of them the
  registry is empty.
\<close>

theorem registry_tracks_alive_instances:
  assumes "C K = Collector_class" "helpers w K = InstanceSafetyHelper_ctor"
    "s_construct_stack_size w = 0" "s_classes_under_construction w = []"
  shows
    "(wf_life evs {} \<longrightarrow>
        (\<exists>objs w'. run_life C K evs Map.empty w = Ok objs w' \<and>
           fset (members K w') = alive_after evs {} \<and> dom objs = alive_after evs {})) \<and>
     (distinct as \<longrightarrow>
        (\<exists>objs w'. run_life C K (map New as) Map.empty w = Ok objs w' \<and>
           fcard (members K w') = length as \<and> fset (members K w') = set as)) \<and>
     (wf_life (pre @ [Delete a]) {} \<longrightarrow>
        (\<exists>objs1 w1 objs2 w2.
           run_life C K pre Map.empty w = Ok objs1 w1 \<and>
           run_life C K (pre @ [Delete a]) Map.empty w = Ok objs2 w2 \<and>
           a |\<in>| members K w1 \<and>
           Suc (fcard (members K w2)) = fcard (members K w1) \<and>
           members K w2 = members K w1 |-| {|a|})) \<and>
     (distinct as \<and> distinct bs \<and> set bs = set as \<longrightarrow>
        (\<exists>objs w'. run_life C K (map New as @ map Delete bs) Map.empty w = Ok objs w' \<and>
           members K w' = {||}))"
proof (intro conjI impI)
  assume "wf_life evs {}"
  from run_life_fresh[of C K w, OF assms this]
  show "\<exists>objs w'. run_life C K evs Map.empty w = Ok objs w' \<and>
           fset (members K w') = alive_after evs {} \<and> dom objs = alive_after evs {}" .
next
  assume d: "distinct as"
  then have "wf_life (map New as) {}" by (simp add: wf_life_News)
  from run_life_fresh[of C K w, OF assms this] obtain objs w' where
    r: "run_life C K (map New as) Map.empty w = Ok objs w'" and m: "fset (members K w') = set as"
    by (auto simp: alive_after_News)
  from m d have "fcard (members K w') = length as"
    by (simp add: fcard.rep_eq distinct_card)
  with r m show "\<exists>objs w'. run_life C K (map New as) Map.empty w = Ok objs w' \<and>
           fcard (members K w') = length as \<and> fset (members K w') = set as"
    by blast
next
  assume wf: "wf_life (pre @ [Delete a]) {}"
  then have wf1: "wf_life pre {}" and a: "a \<in> alive_after pre {}"
    by (simp_all add: wf_life_append)
  from run_life_fresh[of C K w, OF assms wf1] obtain objs1 w1 where
    r1: "run_life C K pre Map.empty w = Ok objs1 w1" and m1: "fset (members K w1) = alive_after pre {}"
    by blast
  from run_life_fresh[of C K w, OF assms wf] obtain objs2 w2 where
    r2: "run_life C K (pre @ [Delete a]) Map.empty w = Ok objs2 w2"
    and m2: "fset (members K w2) = alive_after pre {} - {a}"
    by (auto simp: alive_after_append)
  from m1 a have in1: "a |\<in>| members K w1" by simp
  from m1 m2 have eq: "members K w2 = members K w1 |-| {|a|}"
    by (simp add: fset_eq_iff)
  from fcard_Suc_fminus1[OF in1] eq have "Suc (fcard (members K w2)) = fcard (members K w1)"
    by (simp only:)
  with r1 r2 in1 eq
  show "\<exists>objs1 w1 objs2 w2.
           run_life C K pre Map.empty w = Ok objs1 w1 \<and>
           run_life C K (pre @ [Delete a]) Map.empty w = Ok objs2 w2 \<and>
           a |\<in>| members K w1 \<and>
           Suc (fcard (members K w2)) = fcard (members K w1) \<and>
           members K w2 = members K w1 |-| {|a|}"
    by blast
next
  assume "distinct as \<and> distinct bs \<and> set bs = set as"
  then have "wf_life (map New as @ map Delete bs) {}"
    by (simp add: wf_life_append wf_life_News wf_life_Deletes alive_after_News)
  from run_life_fresh[of C K w, OF assms this] \<open>distinct as \<and> distinct bs \<and> set bs = set as\<close>
  obtain objs w' where r: "run_life C K (map New as @ map Delete bs) Map.empty w = Ok objs w'"
    and m: "fset (members K w') = {}"
    by (auto simp: alive_after_append alive_after_News alive_after_Deletes)
  from m have "members K w' = {||}" by auto
  with r show "\<exists>objs w'. run_life C K (map New as @ map Delete bs) Map.empty w = Ok objs w' \<and>
           members K w' = {||}"
    by blast
qed

theorem registry_tracks_alive_instances_witness:
  "wf_life [New 10, New 11, Delete 10, New 12] {} \<and>
   alive_after [New 10, New 11, Delete 10, New 12] {} = {11, 12} \<and>
   (\<exists>objs w'. run_life collector_table 0 [New 10, New 11, Delete 10, New 12] Map.empty world0
        = Ok objs w' \<and>
      fset (members 0 w') = alive_after [New 10, New 11, Delete 10, New 12] {} \<and>
      dom objs = alive_after [New 10, New 11, Delete 10, New 12] {}) \<and>
   distinct [10, 11, 12 :: addr] \<and>
   (\<exists>objs w'. run_life collector_table 0 (map New [10, 11, 12]) Map.empty world0 = Ok objs w' \<and>
      fcard (members 0 w') = length [10, 11, 12 :: addr] \<and>
      fset (members 0 w') = set [10, 11, 12]) \<and>
   wf_life ([New 10, New 11] @ [Delete 11]) {} \<and>
   (\<exists>objs1 w1 objs2 w2.
      run_life collector_table 0 [New 10, New 11] Map.empty world0 = Ok objs1 w1 \<and>
      run_life collector_table 0 ([New 10, New 11] @ [Delete 11]) Map.empty world0 = Ok objs2 w2 \<and>
      11 |\<in>| members 0 w1 \<and>
      Suc (fcard (members 0 w2)) = fcard (members 0 w1) \<and>
      members 0 w2 = members 0 w1 |-| {|11|}) \<and>
   distinct [12, 11, 10 :: addr] \<and> set [12, 11, 10 :: addr] = set [10, 11, 12] \<and>
   (\<exists>objs w'. run_life collector_table 0 (map New [10, 11, 12] @ map Delete [12, 11, 10])
        Map.empty world0 = Ok objs w' \<and> members 0 w' = {||})"
proof -
  have h: "collector_table 0 = Collector_class"
    "helpers world0 0 = InstanceSafetyHelper_ctor"
    "s_construct_stack_size world0 = 0" "s_classes_under_construction world0 = []"
    by (simp_all add: world0_def collector_table_def)
  have w1: "wf_life [New 10, New 11, Delete 10, New 12] {}" by simp
  have w2: "distinct [10, 11, 12 :: addr]" by simp
  have w3: "wf_life ([New 10, New 11] @ [Delete 11]) {}" by simp
  have w4: "distinct [12, 11, 10 :: addr]" "set [12, 11, 10 :: addr] = set [10, 11, 12]" by auto
  have a: "alive_after [New 10, New 11, Delete 10, New 12] {} = {11, 12}" by auto
  note t = registry_tracks_alive_instances[of collector_table 0 world0, OF h,
      where evs = "[New 10, New 11, Delete 10, New 12]"
      and as = "[10, 11, 12]" and pre = "[New 10, New 11]" and a = 11 and bs = "[12, 11, 10]"]
  from t w1 w2 w3 w4 a show ?thesis by blast
qed

text \<open>
  Claim C6: \<open>insert\<close> of an address that is in the container fails its assertion,
  and of one that is not adds it; \<open>erase\<close> of an address that is not in the container
  fails its assertion, and of one that is removes it.
\<close>

theorem Collector_insert_erase:
  "(c |\<in>| m_container w this \<longrightarrow> Collector_insert this c w = Abort AssertionFailed w) \<and>
   (c |\<notin>| m_container w this \<longrightarrow>
      Collector_insert this c w =
        Ok True (w\<lparr>m_container := (m_container w)(this := finsert c (m_container w this))\<rparr>)) \<and>
   (c |\<notin>| m_container w this \<longrightarrow> Collector_erase this c w = Abort AssertionFailed w) \<and>
   (c |\<in>| m_container w this \<longrightarrow>
      Collector_erase this c w =
        Ok True (w\<lparr>m_container := (m_container w)(this := m_container w this |-| {|c|})\<rparr>))"
  by (simp add: Collector_insert_def Collector_erase_def Let_def finsert_absorb)

theorem Collector_insert_erase_witness:
  "3 |\<notin>| m_container world0 9 \<and>
   (\<exists>w1. Collector_insert 9 3 world0 = Ok True w1 \<and> m_container w1 9 = {|3|} \<and>
      3 |\<in>| m_container w1 9 \<and>
      Collector_insert 9 3 w1 = Abort AssertionFailed w1 \<and>
      (\<exists>w2. Collector_erase 9 3 w1 = Ok True w2 \<and> m_container w2 9 = {||})) \<and>
   Collector_erase 9 3 world0 = Abort AssertionFailed world0"
proof -
  let ?w1 = "world0\<lparr>m_container := (m_container world0)(9 := finsert 3 (m_container world0 9))\<rparr>"
  have a: "3 |\<notin>| m_container world0 9" by (simp add: world0_def)
  have b: "3 |\<in>| m_container ?w1 9" by simp
  from Collector_insert_erase[of 3 world0 9] a
  have i: "Collector_insert 9 3 world0 = Ok True ?w1"
    and e0: "Collector_erase 9 3 world0 = Abort AssertionFailed world0" by simp_all
  from Collector_insert_erase[of 3 ?w1 9] b
  have i2: "Collector_insert 9 3 ?w1 = Abort AssertionFailed ?w1"
    and e1: "Collector_erase 9 3 ?w1 =
        Ok True (?w1\<lparr>m_container := (m_container ?w1)(9 := m_container ?w1 9 |-| {|3|})\<rparr>)"
    by simp_all
  have c1: "m_container ?w1 9 = {|3|}" by (simp add: world0_def)
  have c2: "m_container (?w1\<lparr>m_container := (m_container ?w1)(9 := m_container ?w1 9 |-| {|3|})\<rparr>) 9 = {||}"
    by (simp add: world0_def)
  from a b i i2 e0 e1 c1 c2 show ?thesis by blast
qed

text \<open>
  Claim C7: the destructor of the helper fails its assertion while the slot is marked
  initialized, and returns exactly when \<open>initialized\<close> is false and the pointer is
  null. After \<open>createInstance\<close> alone it fails; after \<open>destructInstance\<close> it returns.
\<close>

theorem helper_destruction:
  "(initialized (wrapper (helpers w T)) \<longrightarrow> InstanceSafetyHelper_dtor T w = Abort AssertionFailed w) \<and>
   (InstanceSafetyHelper_dtor T w = Ok () w \<longleftrightarrow>
      \<not> initialized (wrapper (helpers w T)) \<and> raw_pointer (wrapper (helpers w T)) = None) \<and>
   (createInstance (table P n) T v = Ok r w1 \<longrightarrow>
      InstanceSafetyHelper_dtor T w1 = Abort AssertionFailed w1) \<and>
   (destructInstance C T u = Ok () w2 \<longrightarrow> InstanceSafetyHelper_dtor T w2 = Ok () w2)"
proof (intro conjI impI)
  assume c: "createInstance (table P n) T v = Ok r w1"
  from createInstance_table_helper[OF c]
  show "InstanceSafetyHelper_dtor T w1 = Abort AssertionFailed w1"
    by (simp add: InstanceSafetyHelper_dtor_def)
next
  assume "destructInstance C T u = Ok () w2"
  then show "InstanceSafetyHelper_dtor T w2 = Ok () w2"
    by (rule destructInstance_OkE)
       (simp add: Singleton_dtor_Ok InstanceSafetyHelper_dtor_def unlock_def)
qed (simp_all add: InstanceSafetyHelper_dtor_def)

theorem helper_destruction_witness:
  "\<exists>r w1 w2. createInstance (table prog_AB 2) 0 world0 = Ok r w1 \<and>
     destructInstance (table prog_AB 2) 0 w1 = Ok () w2 \<and>
     initialized (wrapper (helpers w1 0)) \<and>
     InstanceSafetyHelper_dtor 0 w1 = Abort AssertionFailed w1 \<and>
     InstanceSafetyHelper_dtor 0 w2 = Ok () w2"
proof -
  obtain r w1 w2 where c: "createInstance (table prog_AB 2) 0 world0 = Ok r w1"
    and d: "destructInstance (table prog_AB 2) 0 w1 = Ok () w2"
    using run_AB_destruct by blast
  from createInstance_table_helper[OF c] have i: "initialized (wrapper (helpers w1 0))" by simp
  from helper_destruction[where w = w1 and T = 0 and P = prog_AB and n = 2 and v = world0
      and r = r and ?w1.0 = w1 and C = "table prog_AB 2" and u = w1 and ?w2.0 = w2] c d i
  show ?thesis by blast
qed

text \<open>
  Claim C8: each of the five operations, on a state in which every initialized slot is
  occupied, returns a state in which that holds again, whatever the program; and a
  slot is occupied exactly when its pointer is not null.
\<close>

theorem holder_invariant_preserved:
  assumes "holder_inv w"
  shows "(createInstance (table P n) T w = Ok r1 w1 \<longrightarrow> holder_inv w1) \<and>
         (Instance (table P n) T w = Ok r2 w2 \<longrightarrow> holder_inv w2) \<and>
         (destructInstance (table P n) T w = Ok () w3 \<longrightarrow> holder_inv w3) \<and>
         (getInstance T w = Ok p4 w4 \<longrightarrow> holder_inv w4) \<and>
         (getInstanceDuringBuilding T w = Ok p5 w5 \<longrightarrow> holder_inv w5) \<and>
         (occupied T w \<longleftrightarrow> raw_pointer (wrapper (helpers w T)) \<noteq> None)"
proof -
  have "resp keeps_holder_inv (step (table P n) c)" for c
    by (rule step_keeps_holder_inv[OF table_keeps_holder_inv])
  note s = this[unfolded resp_def keeps_holder_inv_def, rule_format, OF _ assms]
  have "createInstance (table P n) T w = Ok r1 w1 \<Longrightarrow> holder_inv w1"
    using s[of "CreateInstance T" "()" w1] by (simp add: step_def seq_def)
  moreover have "Instance (table P n) T w = Ok r2 w2 \<Longrightarrow> holder_inv w2"
    using s[of "InstanceCall T" "()" w2] by (simp add: step_def seq_def)
  moreover have "destructInstance (table P n) T w = Ok () w3 \<Longrightarrow> holder_inv w3"
    using s[of "DestructInstance T" "()" w3] by (simp add: step_def)
  moreover have "getInstance T w = Ok p4 w4 \<Longrightarrow> holder_inv w4"
    using assms by (simp add: getInstance_Ok)
  moreover have "getInstanceDuringBuilding T w = Ok p5 w5 \<Longrightarrow> holder_inv w5"
    using assms by (simp add: getInstanceDuringBuilding_Ok)
  ultimately show ?thesis by (simp add: occupied_def)
qed

theorem holder_invariant_preserved_witness:
  "holder_inv world0 \<and>
   (\<exists>r w1 w2. createInstance (table prog_AB 2) 0 world0 = Ok r w1 \<and> holder_inv w1 \<and>
      initialized (wrapper (helpers w1 0)) \<and> occupied 0 w1 \<and>
      getInstance 0 w1 = Ok 0 w1 \<and>
      destructInstance (table prog_AB 2) 0 w1 = Ok () w2 \<and> holder_inv w2) \<and>
   (\<exists>r w3. Instance (table prog_AB 2) 0 world0 = Ok r w3 \<and> holder_inv w3) \<and>
   holder_inv (set_raw_pointer 0 (Some 7) world0) \<and>
   getInstanceDuringBuilding 0 (set_raw_pointer 0 (Some 7) world0)
     = Ok 7 (set_raw_pointer 0 (Some 7) world0)"
proof -
  let ?m = "set_raw_pointer 0 (Some 7) world0"
  obtain r w1 w2 where c: "createInstance (table prog_AB 2) 0 world0 = Ok r w1"
    and d: "destructInstance (table prog_AB 2) 0 w1 = Ok () w2"
    using run_AB_destruct by blast
  obtain r' w3 where i: "Instance (table prog_AB 2) 0 world0 = Ok r' w3"
    using run_AB_Instance by blast
  from holder_invariant_preserved[OF holder_inv_world0, where P = prog_AB and n = 2 and T = 0
      and ?r1.0 = r and ?w1.0 = w1 and ?r2.0 = r' and ?w2.0 = w3] c i
  have h1: "holder_inv w1" and h3: "holder_inv w3" by blast+
  from createInstance_table_helper[OF c]
  have e: "initialized (wrapper (helpers w1 0))" "occupied 0 w1" "getInstance 0 w1 = Ok 0 w1"
    by (simp_all add: occupied_def getInstance_def world0_def)
  from holder_invariant_preserved[OF h1, where P = prog_AB and n = 2 and T = 0 and ?w3.0 = w2
      and ?p4.0 = 0 and ?w4.0 = w1] d e(3)
  have h2: "holder_inv w2" by blast
  have g: "getInstanceDuringBuilding 0 ?m = Ok 7 ?m"
    by (simp add: getInstanceDuringBuilding_def set_raw_pointer_def world0_def
          InstanceSafetyHelper_ctor_def)
  have "holder_inv ?m"
    unfolding holder_inv_def occupied_def
    by (simp add: world0_def InstanceSafetyHelper_ctor_def)
  from holder_invariant_preserved[OF this, where T = 0 and ?p5.0 = 7 and ?w5.0 = ?m] g
  have hm: "holder_inv ?m" by blast
  from holder_inv_world0 c d i h1 h2 h3 e hm g show ?thesis by blast
qed

text \<open>
  Claim C9: \<open>getInstanceDuringBuilding\<close> returns the stored pointer, changing nothing,
  when the slot is occupied and not initialized, and fails its assertion in every
  other state.
\<close>

theorem getInstanceDuringBuilding_exactly:
  "(occupied T w \<and> \<not> initialized (wrapper (helpers w T)) \<longrightarrow>
      (\<exists>p. raw_pointer (wrapper (helpers w T)) = Some p \<and> getInstanceDuringBuilding T w = Ok p w)) \<and>
   (\<not> (occupied T w \<and> \<not> initialized (wrapper (helpers w T))) \<longrightarrow>
      getInstanceDuringBuilding T w = Abort AssertionFailed w)"
  by (auto simp: occupied_def getInstanceDuringBuilding_def split: option.splits)

theorem getInstanceDuringBuilding_exactly_witness:
  "occupied 0 (set_raw_pointer 0 (Some 7) world0) \<and>
   getInstanceDuringBuilding 0 (set_raw_pointer 0 (Some 7) world0)
     = Ok 7 (set_raw_pointer 0 (Some 7) world0) \<and>
   \<not> occupied 0 world0 \<and>
   getInstanceDuringBuilding 0 world0 = Abort AssertionFailed world0"
  using getInstanceDuringBuilding_exactly[of 0 "set_raw_pointer 0 (Some 7) world0"]
    getInstanceDuringBuilding_exactly[of 0 world0]
  by (simp add: occupied_def world0_def InstanceSafetyHelper_ctor_def set_raw_pointer_def)

text \<open>
  Claim C10: on a helper whose pointer is not null, \<open>Instance\<close> returns the wrapper
  that is there and leaves the whole state as it was: helper, coordinator, allocator
  and trace.
\<close>

theorem Instance_idempotent:
  "occupied T w \<Longrightarrow> Instance C T w = Ok (wrapper (helpers w T)) w"
  by (auto simp: occupied_def Instance_def)

theorem Instance_idempotent_witness:
  "\<exists>r w1. createInstance (table prog_AB 2) 0 world0 = Ok r w1 \<and> occupied 0 w1 \<and>
     Instance (table prog_AB 2) 0 w1 = Ok r w1"
proof -
  obtain r w1 where c: "createInstance (table prog_AB 2) 0 world0 = Ok r w1"
    using run_AB by blast
  from createInstance_table_helper[OF c] have o: "occupied 0 w1" and r: "r = wrapper (helpers w1 0)"
    by (simp_all add: occupied_def)
  from Instance_idempotent[OF o, of "table prog_AB 2"] c o r show ?thesis by auto
qed

end
